theory Spec2Isabelle
  imports Main "HOL-Library.Word" "HOL-Library.Sublist"
begin

section \<open>JavaScript strings\<close>

text \<open>
  A JavaScript string is a sequence of 16-bit code units. The regular expressions of
  \<^verbatim>\<open>bundler.js\<close> carry no \<^verbatim>\<open>u\<close> flag, so they work on code units.
  \<open>js\<close> turns an Isabelle literal into such a string.
\<close>

type_synonym jschar = "16 word"
type_synonym jsstring = "jschar list"

definition js :: "string \<Rightarrow> jsstring" where
  "js s = map of_char s"

text \<open>
  The class \<^verbatim>\<open>\s\<close> of ECMAScript: WhiteSpace (TAB, VT, FF, SP, NBSP, ZWNBSP and the
  category Zs) and LineTerminator (LF, CR, LS, PS). \<^verbatim>\<open>String.prototype.trim\<close> strips
  the same set.
\<close>

definition isLineTerminator :: "jschar \<Rightarrow> bool" where
  "isLineTerminator c = (c = 0x0A \<or> c = 0x0D \<or> c = 0x2028 \<or> c = 0x2029)"

definition isWs :: "jschar \<Rightarrow> bool" where
  "isWs c = (c = 0x09 \<or> c = 0x0B \<or> c = 0x0C \<or> c = 0x20 \<or> c = 0xA0 \<or> c = 0x1680
     \<or> (0x2000 \<le> c \<and> c \<le> 0x200A) \<or> c = 0x202F \<or> c = 0x205F \<or> c = 0x3000
     \<or> c = 0xFEFF \<or> isLineTerminator c)"

abbreviation sp :: jschar where "sp \<equiv> 0x20"
abbreviation ch_lt :: jschar where "ch_lt \<equiv> 0x3C"
abbreviation ch_gt :: jschar where "ch_gt \<equiv> 0x3E"
abbreviation ch_slash :: jschar where "ch_slash \<equiv> 0x2F"
abbreviation ch_star :: jschar where "ch_star \<equiv> 0x2A"
abbreviation ch_semi :: jschar where "ch_semi \<equiv> 0x3B"
abbreviation ch_lbrace :: jschar where "ch_lbrace \<equiv> 0x7B"
abbreviation ch_rbrace :: jschar where "ch_rbrace \<equiv> 0x7D"
abbreviation ch_lparen :: jschar where "ch_lparen \<equiv> 0x28"
abbreviation ch_rparen :: jschar where "ch_rparen \<equiv> 0x29"
abbreviation ch_comma :: jschar where "ch_comma \<equiv> 0x2C"
abbreviation ch_colon :: jschar where "ch_colon \<equiv> 0x3A"

section \<open>String.prototype.replace with a global regular expression\<close>

text \<open>
  \<open>s.replace(/re/g, r)\<close> scans \<open>s\<close> from the left. At each position it tries the
  expression; on a match it emits the replacement and goes on behind the match, otherwise
  it keeps the code unit and moves one position on. A \<open>matcher\<close> is one regular expression
  with its replacement: given the input from the current position on, it returns the
  replacement text and the input left behind the match. No expression of the bundler
  looks behind the current position, and none matches the empty string; the length test
  only makes the recursion well-founded.
\<close>

type_synonym matcher = "jsstring \<Rightarrow> (jsstring \<times> jsstring) option"

function replace_all :: "matcher \<Rightarrow> jsstring \<Rightarrow> jsstring" where
  "replace_all m [] = []"
| "replace_all m (c # cs) =
     (case m (c # cs) of
        Some (r, rest) \<Rightarrow>
          if length rest \<le> length cs then r @ replace_all m rest
          else c # replace_all m cs
      | None \<Rightarrow> c # replace_all m cs)"
  by pat_completeness auto
termination
  by (relation "measure (\<lambda>(m, s). length s)") auto

text \<open>\<^verbatim>\<open>/\s+/g\<close> replaced by one space.\<close>

fun m_ws_run :: matcher where
  "m_ws_run [] = None"
| "m_ws_run (c # cs) = (if isWs c then Some ([sp], dropWhile isWs cs) else None)"

text \<open>\<^verbatim>\<open>/>\s+</g\<close> replaced by \<^verbatim>\<open>><\<close>.\<close>

fun m_gt_ws_lt :: matcher where
  "m_gt_ws_lt (c # w # cs) =
     (if c = ch_gt \<and> isWs w then
        (case dropWhile isWs cs of
           d # rest \<Rightarrow> if d = ch_lt then Some ([ch_gt, ch_lt], rest) else None
         | [] \<Rightarrow> None)
      else None)"
| "m_gt_ws_lt _ = None"

text \<open>\<^verbatim>\<open>/\s+>/g\<close> replaced by \<^verbatim>\<open>>\<close>.\<close>

fun m_ws_gt :: matcher where
  "m_ws_gt [] = None"
| "m_ws_gt (c # cs) =
     (if isWs c then
        (case dropWhile isWs cs of
           d # rest \<Rightarrow> if d = ch_gt then Some ([ch_gt], rest) else None
         | [] \<Rightarrow> None)
      else None)"

text \<open>\<^verbatim>\<open>/<\s+/g\<close> replaced by \<^verbatim>\<open><\<close>.\<close>

fun m_lt_ws :: matcher where
  "m_lt_ws (c # w # cs) =
     (if c = ch_lt \<and> isWs w then Some ([ch_lt], dropWhile isWs cs) else None)"
| "m_lt_ws _ = None"

text \<open>\<^verbatim>\<open>String.prototype.trim\<close>.\<close>

definition trim :: "jsstring \<Rightarrow> jsstring" where
  "trim s = rev (dropWhile isWs (rev (dropWhile isWs s)))"

text \<open>
  \<^verbatim>\<open>/\/\*[\s\S]*?\*\//g\<close> replaced by the empty string. The lazy body ends at the first
  \<^verbatim>\<open>*/\<close> behind the opening \<^verbatim>\<open>/*\<close>; \<open>after_close\<close> returns what follows it.
\<close>

fun after_close :: "jsstring \<Rightarrow> jsstring option" where
  "after_close (a # b # cs) =
     (if a = ch_star \<and> b = ch_slash then Some cs else after_close (b # cs))"
| "after_close _ = None"

fun m_block_comment :: matcher where
  "m_block_comment (a # b # cs) =
     (if a = ch_slash \<and> b = ch_star then
        (case after_close cs of Some rest \<Rightarrow> Some ([], rest) | None \<Rightarrow> None)
      else None)"
| "m_block_comment _ = None"

text \<open>\<^verbatim>\<open>/;\s*}/g\<close> replaced by \<^verbatim>\<open>}\<close>.\<close>

fun m_semi_brace :: matcher where
  "m_semi_brace [] = None"
| "m_semi_brace (c # cs) =
     (if c = ch_semi then
        (case dropWhile isWs cs of
           d # rest \<Rightarrow> if d = ch_rbrace then Some ([ch_rbrace], rest) else None
         | [] \<Rightarrow> None)
      else None)"

text \<open>
  \<^verbatim>\<open>/{\s*/g\<close>, \<^verbatim>\<open>/;\s*/g\<close>, \<^verbatim>\<open>/,\s*/g\<close> and \<^verbatim>\<open>/:\s*/g\<close>, each replaced by its
  first character: \<open>m_char_ws k\<close> is the expression for the character \<open>k\<close>.
\<close>

fun m_char_ws :: "jschar \<Rightarrow> matcher" where
  "m_char_ws k [] = None"
| "m_char_ws k (c # cs) = (if c = k then Some ([k], dropWhile isWs cs) else None)"

text \<open>
  \<^verbatim>\<open>/\/\/.*$/gm\<close> replaced by the empty string. Without the \<^verbatim>\<open>s\<close> flag the dot matches
  every code unit but a line terminator, and with the \<^verbatim>\<open>m\<close> flag \<^verbatim>\<open>$\<close> holds at the end of
  the input and before a line terminator: the match runs to the end of the line.
\<close>

fun m_line_comment :: matcher where
  "m_line_comment (a # b # cs) =
     (if a = ch_slash \<and> b = ch_slash then Some ([], dropWhile (\<lambda>c. \<not> isLineTerminator c) cs)
      else None)"
| "m_line_comment _ = None"

text \<open>\<^verbatim>\<open>/\s*([{}();,:])\s*/g\<close> replaced by \<^verbatim>\<open>$1\<close>, the captured character.\<close>

definition isPunct :: "jschar \<Rightarrow> bool" where
  "isPunct c = (c = ch_lbrace \<or> c = ch_rbrace \<or> c = ch_lparen \<or> c = ch_rparen
     \<or> c = ch_semi \<or> c = ch_comma \<or> c = ch_colon)"

definition m_tighten :: matcher where
  "m_tighten s =
     (case dropWhile isWs s of
        d # rest \<Rightarrow> if isPunct d then Some ([d], dropWhile isWs rest) else None
      | [] \<Rightarrow> None)"

section \<open>The three minifiers\<close>

definition minifyHTML :: "jsstring \<Rightarrow> jsstring" where
  "minifyHTML html =
     trim (replace_all m_lt_ws (replace_all m_ws_gt (replace_all m_gt_ws_lt
       (replace_all m_ws_run html))))"

definition minifyCSS :: "jsstring \<Rightarrow> jsstring" where
  "minifyCSS css =
     trim (replace_all (m_char_ws ch_colon) (replace_all (m_char_ws ch_comma)
       (replace_all (m_char_ws ch_semi) (replace_all (m_char_ws ch_lbrace)
         (replace_all m_semi_brace (replace_all m_ws_run
           (replace_all m_block_comment css)))))))"

definition minifyJS :: "jsstring \<Rightarrow> jsstring" where
  "minifyJS src =
     trim (replace_all m_tighten (replace_all m_ws_run
       (replace_all m_line_comment (replace_all m_block_comment src))))"


section \<open>Text and bytes\<close>

text \<open>
  A file holds bytes. \<^verbatim>\<open>fs.writeFile(path, text, 'utf8')\<close> writes the UTF-8 encoding of
  the text: one to three bytes for a code unit, four for a surrogate pair, and the three
  bytes of U+FFFD for a surrogate without its partner. \<open>utf8_length\<close> is the number of
  bytes of that encoding.
\<close>

definition isHigh :: "jschar \<Rightarrow> bool" where
  "isHigh c = (0xD800 \<le> c \<and> c \<le> 0xDBFF)"

definition isLow :: "jschar \<Rightarrow> bool" where
  "isLow c = (0xDC00 \<le> c \<and> c \<le> 0xDFFF)"

definition unit_bytes :: "jschar \<Rightarrow> nat" where
  "unit_bytes c = (if c < 0x80 then 1 else if c < 0x800 then 2 else 3)"

fun utf8_length :: "jsstring \<Rightarrow> nat" where
  "utf8_length [] = 0"
| "utf8_length [c] = unit_bytes c"
| "utf8_length (a # b # cs) =
     (if isHigh a \<and> isLow b then 4 + utf8_length cs else unit_bytes a + utf8_length (b # cs))"

type_synonym byte = "8 word"

definition unit_utf8 :: "jschar \<Rightarrow> byte list" where
  "unit_utf8 c =
     (if c < 0x80 then [ucast c]
      else if c < 0x800 then [0xC0 + ucast (drop_bit 6 c), 0x80 + ucast (take_bit 6 c)]
      else if isHigh c \<or> isLow c then [0xEF, 0xBF, 0xBD]
      else [0xE0 + ucast (drop_bit 12 c), 0x80 + ucast (take_bit 6 (drop_bit 6 c)),
            0x80 + ucast (take_bit 6 c)])"

definition pair_utf8 :: "jschar \<Rightarrow> jschar \<Rightarrow> byte list" where
  "pair_utf8 a b =
     (let cp = 0x10000 + push_bit 10 (ucast (take_bit 10 a)) + ucast (take_bit 10 b) :: 32 word
      in [0xF0 + ucast (drop_bit 18 cp), 0x80 + ucast (take_bit 6 (drop_bit 12 cp)),
          0x80 + ucast (take_bit 6 (drop_bit 6 cp)), 0x80 + ucast (take_bit 6 cp)])"

fun utf8_encode :: "jsstring \<Rightarrow> byte list" where
  "utf8_encode [] = []"
| "utf8_encode [c] = unit_utf8 c"
| "utf8_encode (a # b # cs) =
     (if isHigh a \<and> isLow b then pair_utf8 a b @ utf8_encode cs
      else unit_utf8 a @ utf8_encode (b # cs))"

text \<open>
  \<^verbatim>\<open>fs.readFile(file, 'utf8')\<close> decodes the bytes of the file: a well-formed sequence
  gives its code point (two code units above U+FFFF), and every longest part of the input
  that starts a sequence but cannot be continued gives U+FFFD, as does every byte that
  cannot start one. A byte order mark is kept.
\<close>

definition in_range :: "byte \<Rightarrow> byte \<Rightarrow> byte \<Rightarrow> bool" where
  "in_range lo hi b \<longleftrightarrow> lo \<le> b \<and> b \<le> hi"

definition units :: "32 word \<Rightarrow> jsstring" where
  "units cp =
     (if cp < 0x10000 then [ucast cp]
      else [0xD800 + ucast (drop_bit 10 (cp - 0x10000)),
            0xDC00 + ucast (take_bit 10 (cp - 0x10000))])"

definition payload :: "nat \<Rightarrow> byte \<Rightarrow> 32 word" where
  "payload n b = ucast (take_bit n b)"

text \<open>
  \<open>decode_step b bs\<close>: the code units for the sequence that starts with the byte \<open>b\<close>, and
  how many of the bytes \<open>bs\<close> behind it belong to that sequence.
\<close>

definition decode_step :: "byte \<Rightarrow> byte list \<Rightarrow> jsstring \<times> nat" where
  "decode_step b bs =
     (if b < 0x80 then ([ucast b], 0)
      else if in_range 0xC2 0xDF b then
        (case bs of
           c # cs \<Rightarrow>
             if in_range 0x80 0xBF c then (units (push_bit 6 (payload 5 b) + payload 6 c), 1)
             else ([0xFFFD], 0)
         | [] \<Rightarrow> ([0xFFFD], 0))
      else if in_range 0xE0 0xEF b then
        (case bs of
           c # d # ds \<Rightarrow>
             if in_range (if b = 0xE0 then 0xA0 else 0x80) (if b = 0xED then 0x9F else 0xBF) c
             then if in_range 0x80 0xBF d
                  then (units (push_bit 12 (payload 4 b) + push_bit 6 (payload 6 c) + payload 6 d), 2)
                  else ([0xFFFD], 1)
             else ([0xFFFD], 0)
         | [c] \<Rightarrow>
             if in_range (if b = 0xE0 then 0xA0 else 0x80) (if b = 0xED then 0x9F else 0xBF) c
             then ([0xFFFD], 1) else ([0xFFFD], 0)
         | [] \<Rightarrow> ([0xFFFD], 0))
      else if in_range 0xF0 0xF4 b then
        (case bs of
           c # d # e # es \<Rightarrow>
             if in_range (if b = 0xF0 then 0x90 else 0x80) (if b = 0xF4 then 0x8F else 0xBF) c
             then if in_range 0x80 0xBF d
                  then if in_range 0x80 0xBF e
                       then (units (push_bit 18 (payload 3 b) + push_bit 12 (payload 6 c)
                                    + push_bit 6 (payload 6 d) + payload 6 e), 3)
                       else ([0xFFFD], 2)
                  else ([0xFFFD], 1)
             else ([0xFFFD], 0)
         | [c, d] \<Rightarrow>
             if in_range (if b = 0xF0 then 0x90 else 0x80) (if b = 0xF4 then 0x8F else 0xBF) c
             then if in_range 0x80 0xBF d then ([0xFFFD], 2) else ([0xFFFD], 1)
             else ([0xFFFD], 0)
         | [c] \<Rightarrow>
             if in_range (if b = 0xF0 then 0x90 else 0x80) (if b = 0xF4 then 0x8F else 0xBF) c
             then ([0xFFFD], 1) else ([0xFFFD], 0)
         | [] \<Rightarrow> ([0xFFFD], 0))
      else ([0xFFFD], 0))"

fun utf8_decode :: "byte list \<Rightarrow> jsstring" where
  "utf8_decode [] = []"
| "utf8_decode (b # bs) =
     fst (decode_step b bs) @ utf8_decode (drop (snd (decode_step b bs)) bs)"

section \<open>Paths and the file system\<close>

text \<open>
  An absolute path is the list of its components; \<^verbatim>\<open>path.join(dir, name)\<close> with a plain
  name appends it, \<^verbatim>\<open>path.basename\<close> is the last component and \<^verbatim>\<open>path.dirname\<close> the
  rest. A directory lists its entries in the order \<^verbatim>\<open>fs.readdir\<close> returns them.
\<close>

type_synonym path = "jsstring list"

datatype node = File "byte list" | Dir "(jsstring \<times> node) list"

datatype errcode = ENOENT | ENOTDIR | EISDIR | EEXIST | EFAILED

datatype error = Error (code: errcode) (message: jsstring)

fun lookup :: "node \<Rightarrow> path \<Rightarrow> node option" where
  "lookup n [] = Some n"
| "lookup (File c) (x # xs) = None"
| "lookup (Dir es) (x # xs) = (case map_of es x of None \<Rightarrow> None | Some n \<Rightarrow> lookup n xs)"

fun upd :: "jsstring \<Rightarrow> node \<Rightarrow> (jsstring \<times> node) list \<Rightarrow> (jsstring \<times> node) list" where
  "upd x n [] = []"
| "upd x n ((k, v) # es) = (if k = x then (k, n) # es else (k, v) # upd x n es)"

text \<open>Writing a file: the parent has to be a directory, the target must not be one.\<close>

fun put_file :: "path \<Rightarrow> byte list \<Rightarrow> node \<Rightarrow> errcode + node" where
  "put_file [] c t = (case t of File _ \<Rightarrow> Inr (File c) | Dir _ \<Rightarrow> Inl EISDIR)"
| "put_file (x # xs) c (File _) = Inl ENOTDIR"
| "put_file (x # xs) c (Dir es) =
     (case map_of es x of
        None \<Rightarrow> if xs = [] then Inr (Dir (es @ [(x, File c)])) else Inl ENOENT
      | Some n \<Rightarrow>
          (case put_file xs c n of Inl e \<Rightarrow> Inl e | Inr n' \<Rightarrow> Inr (Dir (upd x n' es))))"

text \<open>
  \<^verbatim>\<open>fs.mkdir(p, { recursive: true })\<close>: missing directories are created; a file in the way
  is EEXIST at the end of the path and ENOTDIR inside it.
\<close>

fun mkdirp :: "path \<Rightarrow> node \<Rightarrow> errcode + node" where
  "mkdirp [] t = (case t of Dir _ \<Rightarrow> Inr t | File _ \<Rightarrow> Inl EEXIST)"
| "mkdirp (x # xs) (File _) = Inl ENOTDIR"
| "mkdirp (x # xs) (Dir es) =
     (case map_of es x of
        None \<Rightarrow>
          (case mkdirp xs (Dir []) of Inl e \<Rightarrow> Inl e | Inr n' \<Rightarrow> Inr (Dir (es @ [(x, n')])))
      | Some n \<Rightarrow>
          (case mkdirp xs n of Inl e \<Rightarrow> Inl e | Inr n' \<Rightarrow> Inr (Dir (upd x n' es))))"

definition endsWith :: "jsstring \<Rightarrow> jsstring \<Rightarrow> bool" where
  "endsWith name ext = suffix ext name"

definition basename :: "path \<Rightarrow> jsstring" where
  "basename p = (if p = [] then [] else last p)"

text \<open>
  \<^verbatim>\<open>path.basename(file, ext)\<close> drops the extension from the last component, unless the
  component is the extension itself.
\<close>

definition basename_ext :: "path \<Rightarrow> jsstring \<Rightarrow> jsstring" where
  "basename_ext p ext =
     (let name = basename p in
      if name \<noteq> ext \<and> endsWith name ext then take (length name - length ext) name else name)"

definition dirname :: "path \<Rightarrow> path" where
  "dirname p = butlast p"

abbreviation ch_dot :: jschar where "ch_dot \<equiv> 0x2E"

text \<open>
  \<^verbatim>\<open>path.extname\<close>: from the last dot of the last component to its end; empty when there
  is no dot, when the only dot is the first character, and for the name \<^verbatim>\<open>..\<close>.
\<close>

fun last_dot :: "jsstring \<Rightarrow> nat option" where
  "last_dot [] = None"
| "last_dot (c # cs) =
     (case last_dot cs of
        Some i \<Rightarrow> Some (Suc i)
      | None \<Rightarrow> if c = ch_dot then Some 0 else None)"

definition extname :: "path \<Rightarrow> jsstring" where
  "extname p =
     (let name = basename p in
      case last_dot name of
        None \<Rightarrow> []
      | Some i \<Rightarrow> if i = 0 \<or> name = [ch_dot, ch_dot] then [] else drop i name)"

text \<open>The string form of a path, and \<^verbatim>\<open>String.prototype.includes\<close>.\<close>

definition path_string :: "path \<Rightarrow> jsstring" where
  "path_string p = (if p = [] then [ch_slash] else concat (map (\<lambda>c. ch_slash # c) p))"

fun js_includes :: "jsstring \<Rightarrow> jsstring \<Rightarrow> bool" where
  "js_includes [] sub = (sub = [])"
| "js_includes (c # cs) sub = (prefix sub (c # cs) \<or> js_includes cs sub)"

section \<open>State, console and effects\<close>

text \<open>
  What a run does is recorded in order: the lines it prints and the file-system calls it
  makes. A console line is kept by its kind and its arguments, not by its wording.
\<close>

datatype msg =
    BuildStart
  | Processing string
  | Processed string
  | BuildDone
  | BuildError error
  | TsCompiled jsstring
  | TsError path jsstring
  | CreatingAssets
  | DataMissing
  | DevStart
  | WatchStart
  | FileChanged path
  | HtmlUpdated
  | StylesUpdated
  | ScriptsUpdated
  | AssetsUpdated
  | DataUpdated
  | ReloadHint
  | ChangeError jsstring

datatype event =
    Out msg
  | Err msg
  | Readdir path
  | Read path
  | Write path jsstring
  | Copy path path
  | Mkdir path
  | Sass path
  | Exec path "error option"

record state =
  files :: node
  trace :: "event list"

datatype 'a result = Ok 'a | Throw error

type_synonym 'a io = "state \<Rightarrow> 'a result \<times> state"

definition ret :: "'a \<Rightarrow> 'a io" where
  "ret x s = (Ok x, s)"

definition throw :: "error \<Rightarrow> 'a io" where
  "throw e s = (Throw e, s)"

definition bind :: "'a io \<Rightarrow> ('a \<Rightarrow> 'b io) \<Rightarrow> 'b io" where
  "bind f g s = (case f s of (Ok x, s') \<Rightarrow> g x s' | (Throw e, s') \<Rightarrow> (Throw e, s'))"

definition try_catch :: "'a io \<Rightarrow> (error \<Rightarrow> 'a io) \<Rightarrow> 'a io" where
  "try_catch f h s = (case f s of (Ok x, s') \<Rightarrow> (Ok x, s') | (Throw e, s') \<Rightarrow> h e s')"

definition emit :: "event \<Rightarrow> unit io" where
  "emit ev s = (Ok (), s\<lparr>trace := trace s @ [ev]\<rparr>)"

text \<open>\<^verbatim>\<open>for (const x of xs) { await body(x) }\<close>: the first throw leaves the loop.\<close>

fun for_each :: "'a list \<Rightarrow> ('a \<Rightarrow> unit io) \<Rightarrow> unit io" where
  "for_each [] body s = (Ok (), s)"
| "for_each (x # xs) body s =
     (case body x s of (Ok _, s') \<Rightarrow> for_each xs body s' | (Throw e, s') \<Rightarrow> (Throw e, s'))"

text \<open>
  The collaborators outside the repository: the stylesheet compiler
  (\<^verbatim>\<open>sass.compile(file, {style, sourceMap})\<close>, given the development flag, returning the
  stylesheet and the serialised source map if it made one), the script compiler
  (\<^verbatim>\<open>npx tsc\<close>, given the file tree, the source file and the output directory; it leaves
  the file tree changed as it sees fit, or fails with its message) and the text of the
  platform's file-system errors.
\<close>

record env =
  sass_compile :: "node \<Rightarrow> path \<Rightarrow> bool \<Rightarrow> error + (jsstring \<times> jsstring option)"
  tsc :: "node \<Rightarrow> path \<Rightarrow> path \<Rightarrow> error + node"
  strerror :: "errcode \<Rightarrow> path \<Rightarrow> jsstring"

definition fs_error :: "env \<Rightarrow> errcode \<Rightarrow> path \<Rightarrow> error" where
  "fs_error env c p = Error c (strerror env c p)"

definition pathExists :: "path \<Rightarrow> state \<Rightarrow> bool" where
  "pathExists p s = (lookup (files s) p \<noteq> None)"

definition readFile :: "env \<Rightarrow> path \<Rightarrow> jsstring io" where
  "readFile env p s =
     (case lookup (files s) p of
        Some (File b) \<Rightarrow> (Ok (utf8_decode b), s\<lparr>trace := trace s @ [Read p]\<rparr>)
      | Some (Dir _) \<Rightarrow> (Throw (fs_error env EISDIR p), s)
      | None \<Rightarrow> (Throw (fs_error env ENOENT p), s))"

definition writeFile :: "env \<Rightarrow> path \<Rightarrow> jsstring \<Rightarrow> unit io" where
  "writeFile env p c s =
     (case put_file p (utf8_encode c) (files s) of
        Inr t \<Rightarrow> (Ok (), s\<lparr>files := t, trace := trace s @ [Write p c]\<rparr>)
      | Inl e \<Rightarrow> (Throw (fs_error env e p), s))"

definition copyFile :: "env \<Rightarrow> path \<Rightarrow> path \<Rightarrow> unit io" where
  "copyFile env src dest s =
     (case lookup (files s) src of
        Some (File c) \<Rightarrow>
          (case put_file dest c (files s) of
             Inr t \<Rightarrow> (Ok (), s\<lparr>files := t, trace := trace s @ [Copy src dest]\<rparr>)
           | Inl e \<Rightarrow> (Throw (fs_error env e dest), s))
      | Some (Dir _) \<Rightarrow> (Throw (fs_error env EISDIR src), s)
      | None \<Rightarrow> (Throw (fs_error env ENOENT src), s))"

definition ensureDir :: "env \<Rightarrow> path \<Rightarrow> unit io" where
  "ensureDir env dirPath s =
     (case mkdirp dirPath (files s) of
        Inr t \<Rightarrow> (Ok (), s\<lparr>files := t, trace := trace s @ [Mkdir dirPath]\<rparr>)
      | Inl e \<Rightarrow> if e \<noteq> EEXIST then (Throw (fs_error env e dirPath), s) else (Ok (), s))"

section \<open>The source tree scanner\<close>

text \<open>
  \<open>walk dir es ext\<close> is the loop of \<^verbatim>\<open>getFiles\<close> over the entries \<open>es\<close> of \<open>dir\<close>; a
  subdirectory is scanned where it stands in the listing. \<open>subdirs\<close> lists the directories
  the scan reads below \<open>dir\<close>, in the order it reads them.
\<close>

fun walk :: "path \<Rightarrow> (jsstring \<times> node) list \<Rightarrow> jsstring \<Rightarrow> path list" where
  "walk dir [] ext = []"
| "walk dir ((name, File c) # es) ext =
     (if endsWith name ext then [dir @ [name]] else []) @ walk dir es ext"
| "walk dir ((name, Dir sub) # es) ext = walk (dir @ [name]) sub ext @ walk dir es ext"

fun subdirs :: "path \<Rightarrow> (jsstring \<times> node) list \<Rightarrow> path list" where
  "subdirs dir [] = []"
| "subdirs dir ((name, File c) # es) = subdirs dir es"
| "subdirs dir ((name, Dir sub) # es) =
     (dir @ [name]) # subdirs (dir @ [name]) sub @ subdirs dir es"

definition getFiles :: "env \<Rightarrow> path \<Rightarrow> jsstring \<Rightarrow> path list io" where
  "getFiles env dir ext s =
     (case lookup (files s) dir of
        None \<Rightarrow> (Ok [], s)
      | Some (File _) \<Rightarrow> (Throw (fs_error env ENOTDIR dir), s)
      | Some (Dir es) \<Rightarrow>
          (Ok (walk dir es ext), s\<lparr>trace := trace s @ map Readdir (dir # subdirs dir es)\<rparr>))"

section \<open>Configuration and the five tasks\<close>

record config =
  srcDir :: path
  dataDir :: path
  assetsDir :: path
  distDir :: path
  dev :: bool

text \<open>
  The constructor resolves the four roots against the working directory; the command
  line passes the development flag only.
\<close>

definition default_config :: "path \<Rightarrow> bool \<Rightarrow> config" where
  "default_config cwd d =
     \<lparr>srcDir = cwd @ [js ''src''], dataDir = cwd @ [js ''data''],
      assetsDir = cwd @ [js ''assets''], distDir = cwd @ [js ''dist''], dev = d\<rparr>"

text \<open>Each task is a scan followed by a loop; the body of a loop is named after its file kind.\<close>

definition html_file :: "config \<Rightarrow> env \<Rightarrow> path \<Rightarrow> unit io" where
  "html_file cfg env file =
     bind (readFile env file) (\<lambda>content.
       let fileName = basename file;
           outputPath = distDir cfg @ [fileName];
           processedContent = (if \<not> dev cfg then minifyHTML content else content)
       in writeFile env outputPath processedContent)"

definition processHTML :: "config \<Rightarrow> env \<Rightarrow> unit io" where
  "processHTML cfg env =
     bind (getFiles env (srcDir cfg) (js ''.html'')) (\<lambda>htmlFiles.
       for_each htmlFiles (html_file cfg env))"

definition sassCompile :: "config \<Rightarrow> env \<Rightarrow> path \<Rightarrow> (jsstring \<times> jsstring option) io" where
  "sassCompile cfg env file s =
     (case sass_compile env (files s) file (dev cfg) of
        Inr r \<Rightarrow> (Ok r, s\<lparr>trace := trace s @ [Sass file]\<rparr>)
      | Inl e \<Rightarrow> (Throw e, s\<lparr>trace := trace s @ [Sass file]\<rparr>))"

definition scss_file :: "config \<Rightarrow> env \<Rightarrow> path \<Rightarrow> unit io" where
  "scss_file cfg env file =
     bind (sassCompile cfg env file) (\<lambda>result.
       let fileName = basename_ext file (js ''.scss'') @ js ''.css'';
           outputPath = distDir cfg @ [fileName]
       in bind (writeFile env outputPath (fst result)) (\<lambda>_.
            case snd result of
              Some sourceMap \<Rightarrow>
                if dev cfg
                then writeFile env (distDir cfg @ [fileName @ js ''.map'']) sourceMap
                else ret ()
            | None \<Rightarrow> ret ()))"

definition css_file :: "config \<Rightarrow> env \<Rightarrow> path \<Rightarrow> unit io" where
  "css_file cfg env file =
     bind (readFile env file) (\<lambda>content.
       let fileName = basename file;
           outputPath = distDir cfg @ [fileName];
           processedContent = (if \<not> dev cfg then minifyCSS content else content)
       in writeFile env outputPath processedContent)"

definition processStyles :: "config \<Rightarrow> env \<Rightarrow> unit io" where
  "processStyles cfg env =
     bind (getFiles env (srcDir cfg) (js ''.scss'')) (\<lambda>scssFiles.
     bind (getFiles env (srcDir cfg) (js ''.css'')) (\<lambda>cssFiles.
     bind (for_each scssFiles (scss_file cfg env)) (\<lambda>_.
     for_each cssFiles (css_file cfg env))))"

text \<open>
  \<^verbatim>\<open>execAsync('npx tsc "file" --outDir dist ...')\<close>: a non-zero exit of the subprocess
  rejects with its error. The event records the call and how it ended.
\<close>

definition execTsc :: "config \<Rightarrow> env \<Rightarrow> path \<Rightarrow> unit io" where
  "execTsc cfg env file s =
     (case tsc env (files s) file (distDir cfg) of
        Inr t \<Rightarrow> (Ok (), s\<lparr>files := t, trace := trace s @ [Exec file None]\<rparr>)
      | Inl e \<Rightarrow> (Throw e, s\<lparr>trace := trace s @ [Exec file (Some e)]\<rparr>))"

definition ts_file :: "config \<Rightarrow> env \<Rightarrow> path \<Rightarrow> unit io" where
  "ts_file cfg env file =
     try_catch
       (let fileName = basename_ext file (js ''.ts'') @ js ''.js''
        in bind (execTsc cfg env file) (\<lambda>_. emit (Out (TsCompiled fileName))))
       (\<lambda>error. bind (emit (Err (TsError file (message error)))) (\<lambda>_. throw error))"

definition js_file :: "config \<Rightarrow> env \<Rightarrow> path \<Rightarrow> unit io" where
  "js_file cfg env file =
     bind (readFile env file) (\<lambda>content.
       let fileName = basename file;
           outputPath = distDir cfg @ [fileName];
           processedContent = (if \<not> dev cfg then minifyJS content else content)
       in writeFile env outputPath processedContent)"

definition processScripts :: "config \<Rightarrow> env \<Rightarrow> unit io" where
  "processScripts cfg env =
     bind (getFiles env (srcDir cfg) (js ''.ts'')) (\<lambda>tsFiles.
     bind (getFiles env (srcDir cfg) (js ''.js'')) (\<lambda>jsFiles.
     bind (for_each tsFiles (ts_file cfg env)) (\<lambda>_.
     for_each jsFiles (js_file cfg env))))"

text \<open>
  \<^verbatim>\<open>copyDirectory\<close>: the listing of the source directory is the one found when the copy
  of that directory starts. The code reads each subdirectory when it reaches it, which is
  the same listing unless the destination lies inside the source.
\<close>

fun copy_entries :: "env \<Rightarrow> path \<Rightarrow> path \<Rightarrow> (jsstring \<times> node) list \<Rightarrow> unit io" where
  "copy_entries env src dest [] s = (Ok (), s)"
| "copy_entries env src dest ((name, File c) # es) s =
     (case copyFile env (src @ [name]) (dest @ [name]) s of
        (Ok _, s') \<Rightarrow> copy_entries env src dest es s'
      | (Throw e, s') \<Rightarrow> (Throw e, s'))"
| "copy_entries env src dest ((name, Dir sub) # es) s =
     (case ensureDir env (dest @ [name]) s of
        (Ok _, s') \<Rightarrow>
          (case copy_entries env (src @ [name]) (dest @ [name]) sub
                  (s'\<lparr>trace := trace s' @ [Readdir (src @ [name])]\<rparr>) of
             (Ok _, s'') \<Rightarrow> copy_entries env src dest es s''
           | (Throw e, s'') \<Rightarrow> (Throw e, s''))
      | (Throw e, s') \<Rightarrow> (Throw e, s'))"

definition copyDirectory :: "env \<Rightarrow> path \<Rightarrow> path \<Rightarrow> unit io" where
  "copyDirectory env src dest =
     bind (ensureDir env dest) (\<lambda>_ s.
       case lookup (files s) src of
         Some (Dir es) \<Rightarrow> copy_entries env src dest es (s\<lparr>trace := trace s @ [Readdir src]\<rparr>)
       | Some (File _) \<Rightarrow> (Throw (fs_error env ENOTDIR src), s)
       | None \<Rightarrow> (Throw (fs_error env ENOENT src), s))"

definition placeholderSVG :: jsstring where
  \<open>placeholderSVG =
     js ''<?xml version="1.0" encoding="UTF-8"?>'' @ [0x0A] @
     js ''<svg width="300" height="300" viewBox="0 0 300 300" xmlns="http://www.w3.org/2000/svg">'' @ [0x0A] @
     js ''    <rect width="300" height="300" fill="#e5e7eb"/>'' @ [0x0A] @
     js ''    <circle cx="150" cy="120" r="40" fill="#9ca3af"/>'' @ [0x0A] @
     js ''    <path d="M150 180 C120 180 90 200 90 220 L90 250 L210 250 L210 220 C210 200 180 180 150 180 Z" fill="#9ca3af"/>'' @ [0x0A] @
     js ''    <text x="150" y="280" text-anchor="middle" fill="#6b7280" font-size="14" font-family="Arial">Foto de Perfil</text>'' @ [0x0A] @
     js ''</svg>''\<close>

definition create_assets :: "config \<Rightarrow> env \<Rightarrow> unit io" where
  "create_assets cfg env =
     bind (emit (Out CreatingAssets)) (\<lambda>_.
     bind (ensureDir env (assetsDir cfg)) (\<lambda>_.
     bind (ensureDir env (assetsDir cfg @ [js ''images''])) (\<lambda>_.
     writeFile env (assetsDir cfg @ [js ''images'', js ''profile.jpg'']) placeholderSVG)))"

definition processAssets :: "config \<Rightarrow> env \<Rightarrow> unit io" where
  "processAssets cfg env =
     bind (\<lambda>s. (Ok (pathExists (assetsDir cfg) s), s)) (\<lambda>exists.
     bind (if \<not> exists then create_assets cfg env else ret ()) (\<lambda>_.
     let assetsOutputDir = distDir cfg @ [js ''assets'']
     in bind (ensureDir env assetsOutputDir) (\<lambda>_.
          copyDirectory env (assetsDir cfg) assetsOutputDir)))"

definition processData :: "config \<Rightarrow> env \<Rightarrow> unit io" where
  "processData cfg env =
     bind (\<lambda>s. (Ok (pathExists (dataDir cfg) s), s)) (\<lambda>exists.
       if \<not> exists then emit (Out DataMissing)
       else
         let dataOutputDir = distDir cfg @ [js ''data'']
         in bind (ensureDir env dataOutputDir) (\<lambda>_.
              copyDirectory env (dataDir cfg) dataOutputDir))"

section \<open>The build orchestrator\<close>

text \<open>
  \<^verbatim>\<open>this.tasks\<close> is an object with the keys \<^verbatim>\<open>html\<close>, \<^verbatim>\<open>styles\<close>, \<^verbatim>\<open>scripts\<close>,
  \<^verbatim>\<open>assets\<close>, \<^verbatim>\<open>data\<close>; \<^verbatim>\<open>Object.entries\<close> lists string keys in the order of their
  insertion.
\<close>

definition tasks :: "config \<Rightarrow> env \<Rightarrow> (string \<times> unit io) list" where
  "tasks cfg env =
     [(''html'', processHTML cfg env),
      (''styles'', processStyles cfg env),
      (''scripts'', processScripts cfg env),
      (''assets'', processAssets cfg env),
      (''data'', processData cfg env)]"

definition run_task :: "string \<times> unit io \<Rightarrow> unit io" where
  "run_task nt =
     bind (emit (Out (Processing (fst nt)))) (\<lambda>_.
     bind (snd nt) (\<lambda>_.
     emit (Out (Processed (fst nt)))))"

definition startDevServer :: "unit io" where
  "startDevServer = bind (emit (Out DevStart)) (\<lambda>_. emit (Out WatchStart))"

text \<open>
  How a run of \<^verbatim>\<open>build\<close> ends: \<^verbatim>\<open>process.exit(1)\<close> in the handler, the end of the
  production build (the process then ends with status 0), or the watcher left running.
  The duration printed at the end is not modelled.
\<close>

datatype outcome = Exit nat | Finished | Watching

definition build_body :: "config \<Rightarrow> env \<Rightarrow> unit io" where
  "build_body cfg env =
     bind (ensureDir env (distDir cfg)) (\<lambda>_.
     bind (ensureDir env (distDir cfg @ [js ''data''])) (\<lambda>_.
     bind (ensureDir env (distDir cfg @ [js ''assets''])) (\<lambda>_.
     bind (for_each (tasks cfg env) run_task) (\<lambda>_.
     bind (emit (Out BuildDone)) (\<lambda>_.
     if dev cfg then startDevServer else ret ())))))"

definition build :: "config \<Rightarrow> env \<Rightarrow> state \<Rightarrow> outcome \<times> state" where
  "build cfg env s =
     (case bind (emit (Out BuildStart)) (\<lambda>_. build_body cfg env) s of
        (Ok _, s') \<Rightarrow> (if dev cfg then Watching else Finished, s')
      | (Throw e, s') \<Rightarrow> (Exit 1, s'\<lparr>trace := trace s' @ [Err (BuildError e)]\<rparr>))"

section \<open>The change watcher\<close>

text \<open>
  The handler of the watcher's \<^verbatim>\<open>change\<close> event, for the path of the changed file.
  \<open>change_task\<close> is the body of its \<^verbatim>\<open>try\<close> block.
\<close>

definition change_task :: "config \<Rightarrow> env \<Rightarrow> path \<Rightarrow> unit io" where
  "change_task cfg env filePath =
     (let ext = extname filePath;
          dir = path_string (dirname filePath)
      in bind
           (if ext = js ''.html'' then
              bind (processHTML cfg env) (\<lambda>_. emit (Out HtmlUpdated))
            else if ext = js ''.scss'' \<or> ext = js ''.css'' then
              bind (processStyles cfg env) (\<lambda>_. emit (Out StylesUpdated))
            else if ext = js ''.ts'' \<or> ext = js ''.js'' then
              bind (processScripts cfg env) (\<lambda>_. emit (Out ScriptsUpdated))
            else if js_includes dir (js ''assets'') then
              bind (processAssets cfg env) (\<lambda>_. emit (Out AssetsUpdated))
            else if js_includes dir (js ''data'') then
              bind (processData cfg env) (\<lambda>_. emit (Out DataUpdated))
            else ret ())
           (\<lambda>_. emit (Out ReloadHint)))"

definition on_change :: "config \<Rightarrow> env \<Rightarrow> path \<Rightarrow> unit io" where
  "on_change cfg env filePath =
     bind (emit (Out (FileChanged filePath))) (\<lambda>_.
     try_catch (change_task cfg env filePath)
       (\<lambda>error. emit (Err (ChangeError (message error)))))"

text \<open>
  The watcher handling a sequence of change events one after the other, each handler
  run to its end before the next event is taken. Handlers that are under way at the same
  time are followed step by step further down.
\<close>

definition watch :: "config \<Rightarrow> env \<Rightarrow> path list \<Rightarrow> unit io" where
  "watch cfg env events = for_each events (on_change cfg env)"

section \<open>Notions used in the proofs\<close>

definition shrinking :: "matcher \<Rightarrow> bool" where
  "shrinking m \<longleftrightarrow> (\<forall>s r rest. m s = Some (r, rest) \<longrightarrow>
     (\<exists>mid. s = mid @ rest \<and> mid \<noteq> [] \<and> length r \<le> length mid \<and> (\<forall>c\<in>set r. c < 0x80)
        \<and> \<not> isLow (hd mid) \<and> (\<not> isHigh (last mid) \<or> rest = [] \<or> \<not> isLow (hd rest))))"

fun head_opt :: "jsstring \<Rightarrow> jschar option" where
  "head_opt [] = None"
| "head_opt (d # _) = Some d"

fun single_spaced :: "jsstring \<Rightarrow> bool" where
  "single_spaced [] = True"
| "single_spaced (c # cs) =
     ((isWs c \<longrightarrow> c = sp \<and> (\<forall>d. head_opt cs = Some d \<longrightarrow> \<not> isWs d)) \<and> single_spaced cs)"

fun drop_spaces :: "(jschar option \<Rightarrow> jschar option \<Rightarrow> bool) \<Rightarrow> jschar option \<Rightarrow> jsstring \<Rightarrow> jsstring" where
  "drop_spaces Q p [] = []"
| "drop_spaces Q p (c # cs) =
     (if c = sp \<and> Q p (head_opt cs) then drop_spaces Q p cs else c # drop_spaces Q (Some c) cs)"

definition between_tags :: "jschar option \<Rightarrow> jschar option \<Rightarrow> bool" where
  "between_tags p n = (p = Some ch_gt \<and> n = Some ch_lt)"

definition before_gt :: "jschar option \<Rightarrow> jschar option \<Rightarrow> bool" where
  "before_gt p n = (n = Some ch_gt)"

definition after_lt :: "jschar option \<Rightarrow> jschar option \<Rightarrow> bool" where
  "after_lt p n = (p = Some ch_lt)"

definition at_start :: "jschar option \<Rightarrow> jschar option \<Rightarrow> bool" where
  "at_start p n = (p = None)"

definition at_end :: "jschar option \<Rightarrow> jschar option \<Rightarrow> bool" where
  "at_end p n = (n = None)"

definition html_drop :: "jschar option \<Rightarrow> jschar option \<Rightarrow> bool" where
  "html_drop a b = ((((between_tags a b \<or> before_gt a b) \<or> after_lt a b)) \<or> (at_start a b \<or> at_end a b))"

fun punct_opt :: "jschar option \<Rightarrow> bool" where
  "punct_opt None = False"
| "punct_opt (Some c) = isPunct c"

definition by_punct :: "jschar option \<Rightarrow> jschar option \<Rightarrow> bool" where
  "by_punct p n = (punct_opt p \<or> punct_opt n)"

definition js_drop :: "jschar option \<Rightarrow> jschar option \<Rightarrow> bool" where
  "js_drop a b = (by_punct a b \<or> (at_start a b \<or> at_end a b))"

definition non_ws :: "jsstring \<Rightarrow> jsstring" where
  "non_ws s = filter (\<lambda>c. \<not> isWs c) s"

definition no_semi_semi :: "jschar \<Rightarrow> jschar \<Rightarrow> bool" where
  "no_semi_semi a b = (\<not> (a = ch_semi \<and> b = ch_semi))"

definition no_semi_brace :: "jschar \<Rightarrow> jschar \<Rightarrow> bool" where
  "no_semi_brace a b = (\<not> (a = ch_semi \<and> b = ch_rbrace))"

definition after_char :: "jschar \<Rightarrow> jschar option \<Rightarrow> jschar option \<Rightarrow> bool" where
  "after_char k p n = (p = Some k)"

definition css_drop :: "jschar option \<Rightarrow> jschar option \<Rightarrow> bool" where
  "css_drop a b = ((((after_char ch_lbrace a b \<or> after_char ch_semi a b) \<or> after_char ch_comma a b) \<or> after_char ch_colon a b)
     \<or> (at_start a b \<or> at_end a b))"

inductive file_in :: "(jsstring \<times> node) list \<Rightarrow> path \<Rightarrow> bool" where
  here: "(name, File c) \<in> set es \<Longrightarrow> file_in es [name]"
| below: "(name, Dir sub) \<in> set es \<Longrightarrow> file_in sub q \<Longrightarrow> file_in es (name # q)"

definition new_events :: "state \<Rightarrow> state \<Rightarrow> event list" where
  "new_events s s' = drop (length (trace s)) (trace s')"

definition emits :: "(event \<Rightarrow> bool) \<Rightarrow> 'a io \<Rightarrow> bool" where
  "emits P f \<longleftrightarrow>
     (\<forall>s r s'. f s = (r, s') \<longrightarrow> (\<exists>evs. trace s' = trace s @ evs \<and> (\<forall>ev\<in>set evs. P ev)))"

fun is_marker :: "event \<Rightarrow> bool" where
  "is_marker (Out (Processing n)) = True"
| "is_marker (Out (Processed n)) = True"
| "is_marker _ = False"

definition markers :: "(string \<times> unit io) list \<Rightarrow> event list" where
  "markers ts = concat (map (\<lambda>nt. [Out (Processing (fst nt)), Out (Processed (fst nt))]) ts)"

definition task_order :: "event list" where
  "task_order =
     [Out (Processing ''html''), Out (Processed ''html''),
      Out (Processing ''styles''), Out (Processed ''styles''),
      Out (Processing ''scripts''), Out (Processed ''scripts''),
      Out (Processing ''assets''), Out (Processed ''assets''),
      Out (Processing ''data''), Out (Processed ''data'')]"

text \<open>
  A sample project: a source root with one markup file at the top, a second of the same
  name in a subdirectory, a preprocessed stylesheet, a typed script and a plain script;
  a data root and an assets root. \<open>demo_env\<close> has compilers that succeed, the script
  compiler of \<open>failing_env\<close> rejects every file.
\<close>

definition demo_src :: "(jsstring \<times> node) list" where
  "demo_src =
     [(js ''index.html'', File (utf8_encode (js ''<p>  one  </p>''))),
      (js ''styles.scss'', File (utf8_encode (js ''a { b : c }''))),
      (js ''script.ts'', File (utf8_encode (js ''let x: number = 1;''))),
      (js ''extra.js'', File (utf8_encode (js ''f ( ) ; // note''))),
      (js ''pages'', Dir [(js ''index.html'', File (utf8_encode (js ''<p>  two  </p>''))),
                          (js ''UPPER.HTML'', File (utf8_encode (js ''<p>three</p>'')))])]"

definition demo_tree :: node where
  "demo_tree =
     Dir [(js ''proj'', Dir
       [(js ''src'', Dir demo_src),
        (js ''data'', Dir [(js ''cv-data.json'', File (utf8_encode (js ''{ }'')))]),
        (js ''assets'', Dir [(js ''images'', Dir
           [(js ''photo.png'', File (utf8_encode (js ''PNG'')))])])])]"

definition demo_state :: state where
  "demo_state = \<lparr>files = demo_tree, trace = []\<rparr>"

definition demo_config :: config where
  "demo_config = default_config [js ''proj''] False"

definition demo_env :: env where
  "demo_env =
     \<lparr>sass_compile = (\<lambda>t f d. Inr (js ''a{b:c}'', None)),
      tsc = (\<lambda>t f out.
        case put_file (out @ [basename_ext f (js ''.ts'') @ js ''.js''])
               (utf8_encode (js ''let x = 1;'')) t of
          Inr t' \<Rightarrow> Inr t'
        | Inl c \<Rightarrow> Inl (Error c (js ''cannot write''))),
      strerror = (\<lambda>c p. js ''failed'')\<rparr>"

definition failing_env :: env where
  "failing_env = demo_env\<lparr>tsc := (\<lambda>t f out. Inl (Error EFAILED (js ''TS2322'')))\<rparr>"

text \<open>
  \<open>marks M f\<close>: the task markers a run of \<open>f\<close> prints are an initial part of \<open>M\<close>; all of
  \<open>M\<close> when the run returns, and an initial part that ends inside a task (or is empty)
  when it throws.
\<close>

definition marks :: "event list \<Rightarrow> 'a io \<Rightarrow> bool" where
  "marks M f \<longleftrightarrow>
     (\<forall>s r s'. f s = (r, s') \<longrightarrow>
        (\<exists>k evs. trace s' = trace s @ evs \<and> filter is_marker evs = take k M \<and>
           (case r of Ok _ \<Rightarrow> k = length M | Throw _ \<Rightarrow> (k = 0 \<or> odd k) \<and> k < length M)))"

text \<open>
  \<open>failed_exec\<close> holds of a compiler call that exited non-zero. \<open>before_assets\<close> holds of
  the events that can precede the end of the script stage: everything but a failed
  compiler call, a copy, and the lines of the asset and data tasks.
\<close>

fun failed_exec :: "event \<Rightarrow> bool" where
  "failed_exec (Exec f (Some e)) = True"
| "failed_exec _ = False"

fun before_assets :: "event \<Rightarrow> bool" where
  "before_assets (Exec f (Some e)) = False"
| "before_assets (Copy a b) = False"
| "before_assets (Out (Processing n)) = (n \<noteq> ''assets'' \<and> n \<noteq> ''data'')"
| "before_assets (Out (Processed n)) = (n \<noteq> ''assets'' \<and> n \<noteq> ''data'')"
| "before_assets (Out CreatingAssets) = False"
| "before_assets (Out DataMissing) = False"
| "before_assets _ = True"

text \<open>
  \<open>stops_at_exec f\<close>: a run of \<open>f\<close> emits events of the stages up to the script stage
  only, and if a compiler call fails, the failure and its error line are the last two
  events and the run throws the compiler's error. \<open>exec_fatal\<close> is the same for a run
  that may go on into the later stages when no compiler call fails.
\<close>

definition stops_at_exec :: "'a io \<Rightarrow> bool" where
  "stops_at_exec f \<longleftrightarrow>
     (\<forall>s r s'. f s = (r, s') \<longrightarrow>
        (\<exists>evs. trace s' = trace s @ evs \<and>
           ((\<forall>ev\<in>set evs. before_assets ev) \<or>
            (\<exists>pre file e. evs = pre @ [Exec file (Some e), Err (TsError file (message e))]
               \<and> (\<forall>ev\<in>set pre. before_assets ev) \<and> r = Throw e))))"

definition exec_fatal :: "'a io \<Rightarrow> bool" where
  "exec_fatal f \<longleftrightarrow>
     (\<forall>s r s'. f s = (r, s') \<longrightarrow>
        (\<exists>evs. trace s' = trace s @ evs \<and>
           ((\<forall>ev\<in>set evs. \<not> failed_exec ev) \<or>
            (\<exists>pre file e. evs = pre @ [Exec file (Some e), Err (TsError file (message e))]
               \<and> (\<forall>ev\<in>set pre. before_assets ev) \<and> r = Throw e))))"

text \<open>
  \<open>is_change\<close> holds of the line a change handler prints first, with the path of the
  changed file. \<open>watched_state\<close> is the project of \<open>demo_state\<close> with its output root
  made, as the build leaves it before the watcher starts.
\<close>

fun is_change :: "event \<Rightarrow> bool" where
  "is_change (Out (FileChanged p)) = True"
| "is_change _ = False"

definition watched_state :: state where
  "watched_state =
     (case mkdirp (distDir demo_config) demo_tree of
        Inr t \<Rightarrow> \<lparr>files = t, trace = []\<rparr>
      | Inl e \<Rightarrow> demo_state)"



text \<open>
  \<open>preserves K f\<close>: a run of \<open>f\<close> leaves what is found at every path of \<open>K\<close> as it was.
  \<open>markup_output cfg p\<close>: \<open>p\<close> is a file of the output root whose name ends with
  \<^verbatim>\<open>.html\<close>; \<open>beside_markup cfg q\<close>: \<open>q\<close> is neither such a file nor the output root or a
  directory above it. \<open>markup_event cfg\<close> holds of what the markup task and the handler
  around it do: listing and reading below the source root, writing a markup output, and
  the lines of the handler. \<open>built_state\<close> is the demonstration project after a build.
\<close>

definition preserves :: "(path \<Rightarrow> bool) \<Rightarrow> 'a io \<Rightarrow> bool" where
  "preserves K f \<longleftrightarrow>
     (\<forall>s r s' q. f s = (r, s') \<longrightarrow> K q \<longrightarrow> lookup (files s') q = lookup (files s) q)"





text \<open>
  \<open>well_formed b\<close>: the bytes \<open>b\<close> are well-formed UTF-8, that is, decoding loses nothing
  and encoding the decoded text gives \<open>b\<close> back. \<open>garbled_state\<close> is a project whose one
  markup file is two bytes that are not UTF-8 followed by two spaces.
\<close>

definition well_formed :: "byte list \<Rightarrow> bool" where
  "well_formed b \<longleftrightarrow> utf8_encode (utf8_decode b) = b"

definition garbled_state :: state where
  "garbled_state =
     \<lparr>files = Dir [(js ''proj'', Dir
        [(js ''src'', Dir [(js ''bad.html'', File [0xFF, 0xFF, 0x20, 0x20])]),
         (js ''dist'', Dir [])])],
      trace = []\<rparr>"

text \<open>
  \<open>deleting m\<close>: every match of the expression is replaced by something shorter.
\<close>

definition deleting :: "matcher \<Rightarrow> bool" where
  "deleting m \<longleftrightarrow> (\<forall>s r rest. m s = Some (r, rest) \<longrightarrow> length r + length rest < length s)"

text \<open>
  \<open>mark m s\<close> is the state \<open>s\<close> with the line \<open>m\<close> printed. \<open>prepare\<close> is the part of the
  build before the first task: the start line and the three output directories.
  \<open>in_turn nts s\<close> is the state reached from \<open>s\<close> when the tasks of the list \<open>nts\<close> run one
  after the other, each once and each on the state the one before it left, between its
  two markers; there is no such state when one of them throws.
\<close>

definition mark :: "msg \<Rightarrow> state \<Rightarrow> state" where
  "mark m s = s\<lparr>trace := trace s @ [Out m]\<rparr>"

definition prepare :: "config \<Rightarrow> env \<Rightarrow> unit io" where
  "prepare cfg env =
     bind (emit (Out BuildStart)) (\<lambda>_.
     bind (ensureDir env (distDir cfg)) (\<lambda>_.
     bind (ensureDir env (distDir cfg @ [js ''data''])) (\<lambda>_.
     ensureDir env (distDir cfg @ [js ''assets'']))))"

fun in_turn :: "(string \<times> unit io) list \<Rightarrow> state \<Rightarrow> state option" where
  "in_turn [] s = Some s"
| "in_turn (nt # nts) s =
     (case snd nt (mark (Processing (fst nt)) s) of
        (Ok _, s1) \<Rightarrow> in_turn nts (mark (Processed (fst nt)) s1)
      | (Throw e, s1) \<Rightarrow> None)"




text \<open>
  What the markup task does with one file: \<open>html_target\<close> is the path it writes,
  \<open>html_output\<close> the text it writes there, and \<open>html_events cfg fs cs\<close> the reads and
  writes of its loop over the files \<open>fs\<close> when the texts read from them are \<open>cs\<close>.
\<close>

definition html_target :: "config \<Rightarrow> path \<Rightarrow> path" where
  "html_target cfg f = distDir cfg @ [basename f]"

definition html_output :: "config \<Rightarrow> jsstring \<Rightarrow> jsstring" where
  "html_output cfg content = (if \<not> dev cfg then minifyHTML content else content)"

definition html_events :: "config \<Rightarrow> path list \<Rightarrow> jsstring list \<Rightarrow> event list" where
  "html_events cfg fs cs =
     concat (map2 (\<lambda>f c. [Read f, Write (html_target cfg f) (html_output cfg c)]) fs cs)"

section \<open>The change handlers, step by step\<close>

text \<open>
  The handler of a change event is an \<^verbatim>\<open>async\<close> function: the watcher starts it when the
  event arrives, it runs to its first \<^verbatim>\<open>await\<close> and gives the control back; when the
  awaited operation has completed it goes on to its next \<^verbatim>\<open>await\<close>, and so on. Between
  two of its steps any other handler may take steps of its own, and a new event may
  arrive. An \<open>invocation\<close> is a handler between two steps. The handler of a markup event
  is followed \<^verbatim>\<open>await\<close> by \<^verbatim>\<open>await\<close>: it waits for the scan of the source root, then
  for each file found for its text and then for the write of its output; the file it is
  at and the files still to do are kept with it. A handler of another kind is taken as
  one step (\<open>Whole\<close>), and so is the scan. Taking several steps of the code as one leaves
  out interleavings, it adds none.
\<close>

datatype invocation =
    Scanning
  | Reading path "path list"
  | Writing path jsstring "path list"
  | Whole path
  | Ended

text \<open>
  What the handler prints when the markup task has returned, and when something was
  thrown.
\<close>

definition updated :: "state \<Rightarrow> state" where
  "updated s = s\<lparr>trace := trace s @ [Out HtmlUpdated, Out ReloadHint]\<rparr>"

definition failed :: "error \<Rightarrow> state \<Rightarrow> state" where
  "failed error s = s\<lparr>trace := trace s @ [Err (ChangeError (message error))]\<rparr>"

text \<open>
  \<open>resume\<close>: the awaited operation completes and the handler runs to its next
  \<^verbatim>\<open>await\<close>, or to its end.
\<close>

fun resume :: "config \<Rightarrow> env \<Rightarrow> invocation \<Rightarrow> state \<Rightarrow> invocation \<times> state" where
  "resume cfg env Scanning s =
     (case getFiles env (srcDir cfg) (js ''.html'') s of
        (Ok htmlFiles, s1) \<Rightarrow>
          (case htmlFiles of
             [] \<Rightarrow> (Ended, updated s1)
           | file # rest \<Rightarrow> (Reading file rest, s1))
      | (Throw error, s1) \<Rightarrow> (Ended, failed error s1))"
| "resume cfg env (Reading file rest) s =
     (case readFile env file s of
        (Ok content, s1) \<Rightarrow>
          (Writing (distDir cfg @ [basename file])
             (if \<not> dev cfg then minifyHTML content else content) rest, s1)
      | (Throw error, s1) \<Rightarrow> (Ended, failed error s1))"
| "resume cfg env (Writing outputPath processedContent rest) s =
     (case writeFile env outputPath processedContent s of
        (Ok _, s1) \<Rightarrow>
          (case rest of
             [] \<Rightarrow> (Ended, updated s1)
           | file # rest' \<Rightarrow> (Reading file rest', s1))
      | (Throw error, s1) \<Rightarrow> (Ended, failed error s1))"
| "resume cfg env (Whole filePath) s =
     (Ended, snd (try_catch (change_task cfg env filePath)
                    (\<lambda>error. emit (Err (ChangeError (message error)))) s))"
| "resume cfg env Ended s = (Ended, s)"

text \<open>
  What can happen next in the watcher: a change event arrives and its handler starts
  (it prints the path and reaches its first \<^verbatim>\<open>await\<close>), or the invocation at some
  position of the pool takes its next step. \<open>run_schedule\<close> lets a sequence of these
  happen.
\<close>

datatype action = Change path | Resume nat

fun act :: "config \<Rightarrow> env \<Rightarrow> invocation list \<times> state \<Rightarrow> action \<Rightarrow> invocation list \<times> state" where
  "act cfg env (pool, s) (Change filePath) =
     (pool @ [if extname filePath = js ''.html'' then Scanning else Whole filePath],
      s\<lparr>trace := trace s @ [Out (FileChanged filePath)]\<rparr>)"
| "act cfg env (pool, s) (Resume i) =
     (if i < length pool
      then (pool[i := fst (resume cfg env (pool ! i) s)], snd (resume cfg env (pool ! i) s))
      else (pool, s))"

definition run_schedule ::
  "config \<Rightarrow> env \<Rightarrow> action list \<Rightarrow> invocation list \<times> state \<Rightarrow> invocation list \<times> state" where
  "run_schedule cfg env acts c = foldl (act cfg env) c acts"

text \<open>\<open>settle\<close>: the end of the handler after the markup task has returned or thrown.\<close>

fun settle :: "unit result \<times> state \<Rightarrow> state" where
  "settle (Ok u, s) = updated s"
| "settle (Throw error, s) = failed error s"

section \<open>Lemmas\<close>

lemma isWs_not_low: "isWs c \<Longrightarrow> \<not> isLow c"
  by (auto simp: isWs_def isLineTerminator_def isLow_def word_le_nat_alt)

lemma isWs_not_high: "isWs c \<Longrightarrow> \<not> isHigh c"
  by (auto simp: isWs_def isLineTerminator_def isHigh_def word_le_nat_alt)

lemma ascii_not_sur: "c < 0x80 \<Longrightarrow> \<not> isLow c \<and> \<not> isHigh c"
  by (auto simp: isLow_def isHigh_def word_le_nat_alt word_less_nat_alt)

lemma unit_bytes_pos: "1 \<le> unit_bytes c"
  by (simp add: unit_bytes_def)

lemma utf8_length_ge: "length s \<le> utf8_length s"
  by (induction s rule: utf8_length.induct) (auto simp: unit_bytes_def)

lemma utf8_length_ascii: "\<forall>c\<in>set s. c < 0x80 \<Longrightarrow> utf8_length s = length s"
  by (induction s rule: utf8_length.induct) (auto simp: unit_bytes_def dest: ascii_not_sur)

lemma isLow_not_high: "isLow c \<Longrightarrow> \<not> isHigh c"
  by (auto simp: isLow_def isHigh_def word_le_nat_alt)

lemma sur_bytes: "isLow c \<or> isHigh c \<Longrightarrow> unit_bytes c = 3"
  by (auto simp: isLow_def isHigh_def unit_bytes_def word_le_nat_alt word_less_nat_alt)

lemma utf8_length_Cons_not_high:
  "\<not> isHigh c \<Longrightarrow> utf8_length (c # s) = unit_bytes c + utf8_length s"
  by (cases s) auto

lemma utf8_length_append_le: "utf8_length (p @ q) \<le> utf8_length p + utf8_length q"
proof (induction p rule: utf8_length.induct)
  case 1
  then show ?case by simp
next
  case (2 c)
  then show ?case
    by (cases q) (auto simp: utf8_length_Cons_not_high isLow_not_high sur_bytes)
next
  case (3 a b cs)
  then show ?case by auto
qed

lemma utf8_length_append:
  "p = [] \<or> \<not> isHigh (last p) \<or> q = [] \<or> \<not> isLow (hd q) \<Longrightarrow>
   utf8_length (p @ q) = utf8_length p + utf8_length q"
proof (induction p rule: utf8_length.induct)
  case 1
  then show ?case by simp
next
  case (2 c)
  then show ?case by (cases q) auto
next
  case (3 a b cs)
  then show ?case by (auto split: if_splits)
qed

lemma shrinking_length:
  assumes "shrinking m" "m s = Some (r, rest)"
  shows "length r + length rest \<le> length s"
  using assms unfolding shrinking_def by fastforce

lemma shrinking_utf8:
  assumes "shrinking m" "m s = Some (r, rest)"
  shows "utf8_length (p @ r @ rest) \<le> utf8_length (p @ s)"
proof -
  from assms obtain mid where mid: "s = mid @ rest" "mid \<noteq> []" "length r \<le> length mid"
    "\<forall>c\<in>set r. c < 0x80" "\<not> isLow (hd mid)"
    "\<not> isHigh (last mid) \<or> rest = [] \<or> \<not> isLow (hd rest)"
    unfolding shrinking_def by blast
  have "utf8_length (p @ r @ rest) \<le> utf8_length p + (utf8_length r + utf8_length rest)"
    using utf8_length_append_le [of p "r @ rest"] utf8_length_append_le [of r rest] by linarith
  also have "utf8_length r = length r"
    using mid(4) by (rule utf8_length_ascii)
  also have "utf8_length p + (length r + utf8_length rest)
      \<le> utf8_length p + (utf8_length mid + utf8_length rest)"
    using mid(3) utf8_length_ge [of mid] by linarith
  also have "utf8_length mid + utf8_length rest = utf8_length (mid @ rest)"
    using mid(2,6) by (simp add: utf8_length_append)
  also have "utf8_length p + utf8_length (mid @ rest) = utf8_length (p @ mid @ rest)"
    using mid(2,5) by (simp add: utf8_length_append)
  finally show ?thesis using mid(1) by simp
qed

lemma length_replace_all: "shrinking m \<Longrightarrow> length (replace_all m s) \<le> length s"
proof (induction m s rule: replace_all.induct)
  case (1 m)
  then show ?case by simp
next
  case (2 m c cs)
  show ?case
  proof (cases "m (c # cs)")
    case None
    with 2 show ?thesis by simp
  next
    case (Some a)
    obtain r rest where a: "a = (r, rest)" by (cases a)
    show ?thesis
    proof (cases "length rest \<le> length cs")
      case True
      have "length (replace_all m rest) \<le> length rest"
        using 2(2) [OF Some a [symmetric] True] 2(4) by simp
      moreover have "length r + length rest \<le> length (c # cs)"
        using Some a by (intro shrinking_length [OF 2(4)]) simp
      ultimately show ?thesis using Some a True by simp
    next
      case False
      with 2 Some a show ?thesis by simp
    qed
  qed
qed

lemma utf8_replace_all:
  "shrinking m \<Longrightarrow> utf8_length (p @ replace_all m s) \<le> utf8_length (p @ s)"
proof (induction m s arbitrary: p rule: replace_all.induct)
  case (1 m)
  then show ?case by simp
next
  case (2 m c cs)
  show ?case
  proof (cases "m (c # cs)")
    case None
    have "utf8_length ((p @ [c]) @ replace_all m cs) \<le> utf8_length ((p @ [c]) @ cs)"
      using 2(1) [OF None] 2(4) by blast
    with None show ?thesis by simp
  next
    case (Some a)
    obtain r rest where a: "a = (r, rest)" by (cases a)
    show ?thesis
    proof (cases "length rest \<le> length cs")
      case True
      have "utf8_length ((p @ r) @ replace_all m rest) \<le> utf8_length ((p @ r) @ rest)"
        using 2(2) [OF Some a [symmetric] True] 2(4) by blast
      moreover have "utf8_length (p @ r @ rest) \<le> utf8_length (p @ c # cs)"
        using shrinking_utf8 [OF 2(4)] Some a by simp
      ultimately show ?thesis using Some a True by simp
    next
      case False
      have "utf8_length ((p @ [c]) @ replace_all m cs) \<le> utf8_length ((p @ [c]) @ cs)"
        using 2(3) [OF Some a [symmetric] False] 2(4) by blast
      with Some a False show ?thesis by simp
    qed
  qed
qed

lemma dropWhile_split:
  assumes "dropWhile P cs = r"
  obtains w where "cs = w @ r" "\<forall>c\<in>set w. P c"
proof
  show "cs = takeWhile P cs @ r" using assms by (metis takeWhile_dropWhile_id)
  show "\<forall>c\<in>set (takeWhile P cs). P c" by (auto dest: set_takeWhileD)
qed

lemma shrinkingI:
  assumes "\<And>s r rest. m s = Some (r, rest) \<Longrightarrow>
     \<exists>mid. s = mid @ rest \<and> mid \<noteq> [] \<and> length r \<le> length mid \<and> (\<forall>c\<in>set r. c < 0x80)
        \<and> \<not> isLow (hd mid) \<and> (\<not> isHigh (last mid) \<or> rest = [] \<or> \<not> isLow (hd rest))"
  shows "shrinking m"
  using assms unfolding shrinking_def by blast

lemma isPunct_ascii: "isPunct c \<Longrightarrow> c < 0x80"
  by (auto simp: isPunct_def)

lemma shrinking_m_ws_run: "shrinking m_ws_run"
proof (rule shrinkingI)
  fix s r rest assume h: "m_ws_run s = Some (r, rest)"
  then obtain c cs where s: "s = c # cs" "isWs c" "r = [sp]" "dropWhile isWs cs = rest"
    by (cases s) (auto split: if_splits)
  obtain w where w: "cs = w @ rest" "\<forall>c\<in>set w. isWs c"
    using dropWhile_split [OF s(4)] by blast
  let ?mid = "c # w"
  have "s = ?mid @ rest" using s(1) w(1) by simp
  moreover have "\<not> isHigh (last ?mid)" using s(2) w(2) by (auto simp: isWs_not_high)
  moreover have "\<not> isLow (hd ?mid)" using s(2) by (simp add: isWs_not_low)
  ultimately show "\<exists>mid. s = mid @ rest \<and> mid \<noteq> [] \<and> length r \<le> length mid
      \<and> (\<forall>c\<in>set r. c < 0x80) \<and> \<not> isLow (hd mid)
      \<and> (\<not> isHigh (last mid) \<or> rest = [] \<or> \<not> isLow (hd rest))"
    using s(3) by (intro exI [of _ ?mid]) simp
qed

lemma shrinking_m_gt_ws_lt: "shrinking m_gt_ws_lt"
proof (rule shrinkingI)
  fix s r rest assume h: "m_gt_ws_lt s = Some (r, rest)"
  then obtain w cs where s: "s = ch_gt # w # cs" "isWs w" "r = [ch_gt, ch_lt]"
      "dropWhile isWs cs = ch_lt # rest"
    by (cases s rule: m_gt_ws_lt.cases) (auto split: if_splits list.splits)
  obtain v where v: "cs = v @ ch_lt # rest"
    using dropWhile_split [OF s(4)] by blast
  let ?mid = "ch_gt # w # v @ [ch_lt]"
  have "s = ?mid @ rest" using s(1) v by simp
  moreover have "\<not> isHigh (last ?mid)" by (simp add: ascii_not_sur)
  moreover have "\<not> isLow (hd ?mid)" by (simp add: ascii_not_sur)
  ultimately show "\<exists>mid. s = mid @ rest \<and> mid \<noteq> [] \<and> length r \<le> length mid
      \<and> (\<forall>c\<in>set r. c < 0x80) \<and> \<not> isLow (hd mid)
      \<and> (\<not> isHigh (last mid) \<or> rest = [] \<or> \<not> isLow (hd rest))"
    using s(3) by (intro exI [of _ ?mid]) simp
qed

lemma shrinking_m_ws_gt: "shrinking m_ws_gt"
proof (rule shrinkingI)
  fix s r rest assume h: "m_ws_gt s = Some (r, rest)"
  then obtain c cs where s: "s = c # cs" "isWs c" "r = [ch_gt]"
      "dropWhile isWs cs = ch_gt # rest"
    by (cases s) (auto split: if_splits list.splits)
  obtain v where v: "cs = v @ ch_gt # rest"
    using dropWhile_split [OF s(4)] by blast
  let ?mid = "c # v @ [ch_gt]"
  have "s = ?mid @ rest" using s(1) v by simp
  moreover have "\<not> isHigh (last ?mid)" by (simp add: ascii_not_sur)
  moreover have "\<not> isLow (hd ?mid)" using s(2) by (simp add: isWs_not_low)
  ultimately show "\<exists>mid. s = mid @ rest \<and> mid \<noteq> [] \<and> length r \<le> length mid
      \<and> (\<forall>c\<in>set r. c < 0x80) \<and> \<not> isLow (hd mid)
      \<and> (\<not> isHigh (last mid) \<or> rest = [] \<or> \<not> isLow (hd rest))"
    using s(3) by (intro exI [of _ ?mid]) simp
qed

lemma shrinking_m_lt_ws: "shrinking m_lt_ws"
proof (rule shrinkingI)
  fix s r rest assume h: "m_lt_ws s = Some (r, rest)"
  then obtain w cs where s: "s = ch_lt # w # cs" "isWs w" "r = [ch_lt]"
      "dropWhile isWs cs = rest"
    by (cases s rule: m_lt_ws.cases) (auto split: if_splits)
  obtain v where v: "cs = v @ rest" "\<forall>c\<in>set v. isWs c"
    using dropWhile_split [OF s(4)] by blast
  let ?mid = "ch_lt # w # v"
  have "s = ?mid @ rest" using s(1) v by simp
  moreover have "\<not> isHigh (last ?mid)" using s(2) v(2) by (auto simp: isWs_not_high)
  moreover have "\<not> isLow (hd ?mid)" by (simp add: ascii_not_sur)
  ultimately show "\<exists>mid. s = mid @ rest \<and> mid \<noteq> [] \<and> length r \<le> length mid
      \<and> (\<forall>c\<in>set r. c < 0x80) \<and> \<not> isLow (hd mid)
      \<and> (\<not> isHigh (last mid) \<or> rest = [] \<or> \<not> isLow (hd rest))"
    using s(3) by (intro exI [of _ ?mid]) simp
qed

lemma after_close_split:
  "after_close cs = Some rest \<Longrightarrow> \<exists>v. cs = v @ rest \<and> v \<noteq> [] \<and> last v = ch_slash"
proof (induction cs rule: after_close.induct)
  case (1 a b cs)
  show ?case
  proof (cases "a = ch_star \<and> b = ch_slash")
    case True
    with 1(2) have "a # b # cs = [a, b] @ rest \<and> [a, b] \<noteq> [] \<and> last [a, b] = ch_slash"
      by simp
    then show ?thesis by blast
  next
    case False
    with 1 obtain v where v: "b # cs = v @ rest" "v \<noteq> []" "last v = ch_slash"
      by auto
    then have "a # b # cs = (a # v) @ rest \<and> a # v \<noteq> [] \<and> last (a # v) = ch_slash"
      by simp
    then show ?thesis by blast
  qed
qed simp_all

lemma shrinking_m_block_comment: "shrinking m_block_comment"
proof (rule shrinkingI)
  fix s r rest assume h: "m_block_comment s = Some (r, rest)"
  then obtain cs where s: "s = ch_slash # ch_star # cs" "r = []" "after_close cs = Some rest"
    by (cases s rule: m_block_comment.cases) (auto split: if_splits option.splits)
  obtain v where v: "cs = v @ rest" "v \<noteq> []" "last v = ch_slash"
    using after_close_split [OF s(3)] by blast
  let ?mid = "ch_slash # ch_star # v"
  have "s = ?mid @ rest" using s(1) v by simp
  moreover have "\<not> isHigh (last ?mid)" using v(2,3) by (simp add: ascii_not_sur)
  moreover have "\<not> isLow (hd ?mid)" by (simp add: ascii_not_sur)
  ultimately show "\<exists>mid. s = mid @ rest \<and> mid \<noteq> [] \<and> length r \<le> length mid
      \<and> (\<forall>c\<in>set r. c < 0x80) \<and> \<not> isLow (hd mid)
      \<and> (\<not> isHigh (last mid) \<or> rest = [] \<or> \<not> isLow (hd rest))"
    using s(2) by (intro exI [of _ ?mid]) simp
qed

lemma shrinking_m_semi_brace: "shrinking m_semi_brace"
proof (rule shrinkingI)
  fix s r rest assume h: "m_semi_brace s = Some (r, rest)"
  then obtain cs where s: "s = ch_semi # cs" "r = [ch_rbrace]"
      "dropWhile isWs cs = ch_rbrace # rest"
    by (cases s) (auto split: if_splits list.splits)
  obtain v where v: "cs = v @ ch_rbrace # rest"
    using dropWhile_split [OF s(3)] by blast
  let ?mid = "ch_semi # v @ [ch_rbrace]"
  have "s = ?mid @ rest" using s(1) v by simp
  moreover have "\<not> isHigh (last ?mid)" by (simp add: ascii_not_sur)
  moreover have "\<not> isLow (hd ?mid)" by (simp add: ascii_not_sur)
  ultimately show "\<exists>mid. s = mid @ rest \<and> mid \<noteq> [] \<and> length r \<le> length mid
      \<and> (\<forall>c\<in>set r. c < 0x80) \<and> \<not> isLow (hd mid)
      \<and> (\<not> isHigh (last mid) \<or> rest = [] \<or> \<not> isLow (hd rest))"
    using s(2) by (intro exI [of _ ?mid]) simp
qed

lemma shrinking_m_char_ws: "k < 0x80 \<Longrightarrow> shrinking (m_char_ws k)"
proof (rule shrinkingI)
  fix s r rest assume k: "k < 0x80" and h: "m_char_ws k s = Some (r, rest)"
  then obtain cs where s: "s = k # cs" "r = [k]" "dropWhile isWs cs = rest"
    by (cases s) (auto split: if_splits)
  obtain v where v: "cs = v @ rest" "\<forall>c\<in>set v. isWs c"
    using dropWhile_split [OF s(3)] by blast
  let ?mid = "k # v"
  have "s = ?mid @ rest" using s(1) v by simp
  moreover have "\<not> isHigh (last ?mid)" using k v(2) by (auto simp: isWs_not_high ascii_not_sur)
  moreover have "\<not> isLow (hd ?mid)" using k by (simp add: ascii_not_sur)
  ultimately show "\<exists>mid. s = mid @ rest \<and> mid \<noteq> [] \<and> length r \<le> length mid
      \<and> (\<forall>c\<in>set r. c < 0x80) \<and> \<not> isLow (hd mid)
      \<and> (\<not> isHigh (last mid) \<or> rest = [] \<or> \<not> isLow (hd rest))"
    using s(2) k by (intro exI [of _ ?mid]) simp
qed

lemma isLineTerminator_isWs: "isLineTerminator c \<Longrightarrow> isWs c"
  by (simp add: isWs_def)

lemma shrinking_m_line_comment: "shrinking m_line_comment"
proof (rule shrinkingI)
  fix s r rest assume h: "m_line_comment s = Some (r, rest)"
  then obtain cs where s: "s = ch_slash # ch_slash # cs" "r = []"
      "dropWhile (\<lambda>c. \<not> isLineTerminator c) cs = rest"
    by (cases s rule: m_line_comment.cases) (auto split: if_splits)
  obtain v where v: "cs = v @ rest"
    using dropWhile_split [OF s(3)] by blast
  let ?mid = "ch_slash # ch_slash # v"
  have "s = ?mid @ rest" using s(1) v by simp
  moreover have "rest = [] \<or> \<not> isLow (hd rest)"
    using hd_dropWhile [of "\<lambda>c. \<not> isLineTerminator c" cs] s(3)
    by (auto dest: isLineTerminator_isWs isWs_not_low)
  moreover have "\<not> isLow (hd ?mid)" by (simp add: ascii_not_sur)
  ultimately show "\<exists>mid. s = mid @ rest \<and> mid \<noteq> [] \<and> length r \<le> length mid
      \<and> (\<forall>c\<in>set r. c < 0x80) \<and> \<not> isLow (hd mid)
      \<and> (\<not> isHigh (last mid) \<or> rest = [] \<or> \<not> isLow (hd rest))"
    using s(2) by (intro exI [of _ ?mid]) auto
qed

lemma shrinking_m_tighten: "shrinking m_tighten"
proof (rule shrinkingI)
  fix s r rest assume h: "m_tighten s = Some (r, rest)"
  then obtain d rest0 where s: "dropWhile isWs s = d # rest0" "isPunct d" "r = [d]"
      "dropWhile isWs rest0 = rest"
    by (auto simp: m_tighten_def split: if_splits list.splits)
  obtain v where v: "s = v @ d # rest0" "\<forall>c\<in>set v. isWs c"
    using dropWhile_split [OF s(1)] by blast
  obtain w where w: "rest0 = w @ rest" "\<forall>c\<in>set w. isWs c"
    using dropWhile_split [OF s(4)] by blast
  have d: "d < 0x80" using s(2) by (rule isPunct_ascii)
  let ?mid = "v @ d # w"
  have "s = ?mid @ rest" using v(1) w(1) by simp
  moreover have "\<not> isHigh (last ?mid)"
    using d w(2) by (cases "w = []") (auto simp: isWs_not_high ascii_not_sur)
  moreover have "\<not> isLow (hd ?mid)"
    using d v(2) by (cases v) (auto simp: isWs_not_low ascii_not_sur)
  ultimately show "\<exists>mid. s = mid @ rest \<and> mid \<noteq> [] \<and> length r \<le> length mid
      \<and> (\<forall>c\<in>set r. c < 0x80) \<and> \<not> isLow (hd mid)
      \<and> (\<not> isHigh (last mid) \<or> rest = [] \<or> \<not> isLow (hd rest))"
    using s(3) d by (intro exI [of _ ?mid]) simp
qed

lemma length_trim: "length (trim s) \<le> length s"
proof -
  have "length (trim s) \<le> length (dropWhile isWs s)"
    unfolding trim_def using length_dropWhile_le [of isWs "rev (dropWhile isWs s)"] by simp
  also have "\<dots> \<le> length s" by (rule length_dropWhile_le)
  finally show ?thesis .
qed

lemma utf8_strip_ws:
  assumes "\<forall>c\<in>set w. isWs c"
  shows "utf8_length (p @ q) \<le> utf8_length (p @ w @ q)"
proof (cases "w = []")
  case True
  then show ?thesis by simp
next
  case False
  then have hl: "\<not> isLow (hd w)" "\<not> isHigh (last w)"
    using assms by (auto simp: isWs_not_low isWs_not_high)
  have "utf8_length (p @ w @ q) = utf8_length p + utf8_length (w @ q)"
    using False hl(1) by (simp add: utf8_length_append)
  also have "utf8_length (w @ q) = utf8_length w + utf8_length q"
    using hl(2) by (simp add: utf8_length_append)
  finally show ?thesis using utf8_length_append_le [of p q] by linarith
qed

lemma utf8_trim: "utf8_length (trim s) \<le> utf8_length s"
proof -
  define t where "t = dropWhile isWs s"
  define u where "u = dropWhile isWs (rev t)"
  obtain w where w: "s = w @ t" "\<forall>c\<in>set w. isWs c"
    using dropWhile_split [of isWs s t] t_def by blast
  obtain v where v: "rev t = v @ u" "\<forall>c\<in>set v. isWs c"
    using dropWhile_split [of isWs "rev t" u] u_def by blast
  have t: "t = rev u @ rev v" using v(1) by (metis rev_append rev_rev_ident)
  have "utf8_length (rev u) \<le> utf8_length (rev u @ rev v)"
    using utf8_strip_ws [of "rev v" "rev u" "[]"] v(2) by simp
  also have "\<dots> \<le> utf8_length s"
    using utf8_strip_ws [of w "[]" t] w t by simp
  finally show ?thesis by (simp add: trim_def t_def u_def)
qed

lemma utf8_replace_all0: "shrinking m \<Longrightarrow> utf8_length (replace_all m s) \<le> utf8_length s"
  using utf8_replace_all [of m "[]" s] by simp

lemma isWs_sp [simp]: "isWs sp"
  by (simp add: isWs_def)

lemma dropWhile_head_opt: "(\<forall>d. head_opt cs = Some d \<longrightarrow> \<not> P d) \<Longrightarrow> dropWhile P cs = cs"
  by (cases cs) auto

lemma collapse_Cons:
  "replace_all m_ws_run (c # cs) =
     (if isWs c then sp # replace_all m_ws_run (dropWhile isWs cs) else c # replace_all m_ws_run cs)"
  by (simp add: length_dropWhile_le)

lemma head_opt_collapse: "head_opt cs = Some d \<Longrightarrow> \<not> isWs d \<Longrightarrow> head_opt (replace_all m_ws_run cs) = Some d"
  by (cases cs) (auto simp: collapse_Cons)

lemma head_opt_dropWhile: "head_opt (dropWhile P cs) = Some d \<Longrightarrow> \<not> P d"
  by (induction cs) (auto split: if_splits)

lemma collapse_single: "single_spaced (replace_all m_ws_run s)"
proof (induction "length s" arbitrary: s rule: less_induct)
  case less
  show ?case
  proof (cases s)
    case Nil
    then show ?thesis by simp
  next
    case (Cons c cs)
    show ?thesis
    proof (cases "isWs c")
      case True
      let ?r = "dropWhile isWs cs"
      have "length ?r < length s" using Cons length_dropWhile_le [of isWs cs] by simp
      then have ih: "single_spaced (replace_all m_ws_run ?r)" by (rule less)
      have "\<forall>d. head_opt (replace_all m_ws_run ?r) = Some d \<longrightarrow> \<not> isWs d"
      proof (cases ?r)
        case Nil
        show ?thesis by (simp only: Nil replace_all.simps head_opt.simps) simp
      next
        case (Cons e es)
        then have "\<not> isWs e" using head_opt_dropWhile [of isWs cs e] by simp
        then show ?thesis using Cons by (simp add: collapse_Cons)
      qed
      with ih show ?thesis using Cons True by (simp add: collapse_Cons del: replace_all.simps)
    next
      case False
      have "single_spaced (replace_all m_ws_run cs)" using Cons by (intro less) simp
      then show ?thesis using Cons False by (simp add: collapse_Cons del: replace_all.simps)
    qed
  qed
qed

lemma collapse_id: "single_spaced s \<Longrightarrow> replace_all m_ws_run s = s"
proof (induction s)
  case Nil
  then show ?case by simp
next
  case (Cons c cs)
  then show ?case
    by (auto simp: collapse_Cons dropWhile_head_opt simp del: replace_all.simps)
qed

lemma drop_spaces_nosp: "c \<noteq> sp \<Longrightarrow> drop_spaces Q p (c # cs) = c # drop_spaces Q (Some c) cs"
  by simp

lemma drop_spaces_nows: "\<not> isWs c \<Longrightarrow> drop_spaces Q p (c # cs) = c # drop_spaces Q (Some c) cs"
  by (rule drop_spaces_nosp) auto

lemma drop_spaces_sp_yes: "Q p (head_opt cs) \<Longrightarrow> drop_spaces Q p (sp # cs) = drop_spaces Q p cs"
  by simp

lemma drop_spaces_sp_no: "\<not> Q p (head_opt cs) \<Longrightarrow> drop_spaces Q p (sp # cs) = sp # drop_spaces Q (Some sp) cs"
  by simp

lemmas drop_spaces_eqs = drop_spaces_nosp drop_spaces_sp_yes drop_spaces_sp_no

declare drop_spaces.simps(2) [simp del]

lemma drop_spaces_indep: "(\<forall>cs. s \<noteq> sp # cs) \<Longrightarrow> drop_spaces Q p s = drop_spaces Q p' s"
proof (cases s)
  case (Cons c cs)
  assume "\<forall>cs. s \<noteq> sp # cs"
  with Cons have "c \<noteq> sp" by simp
  then show ?thesis using Cons by (simp add: drop_spaces_nosp)
qed simp

lemma head_opt_drop_spaces: "head_opt s = Some d \<Longrightarrow> d \<noteq> sp \<Longrightarrow> head_opt (drop_spaces Q p s) = Some d"
  by (cases s) (simp_all add: drop_spaces_nosp)

lemma head_opt_drop_spaces_None: "head_opt s = None \<Longrightarrow> head_opt (drop_spaces Q p s) = None"
  by (cases s) simp_all

lemma head_opt_drop_spaces_ws:
  assumes "single_spaced s" "head_opt (drop_spaces Q p s) = Some d" "isWs d"
  shows "head_opt s = Some d"
proof (cases s)
  case Nil
  with assms show ?thesis by simp
next
  case (Cons c cs)
  show ?thesis
  proof (cases "c = sp")
    case False
    with assms Cons show ?thesis by (simp add: drop_spaces_nosp)
  next
    case sp: True
    show ?thesis
    proof (cases "Q p (head_opt cs)")
      case False
      with assms Cons sp show ?thesis by (simp add: drop_spaces_sp_no)
    next
      case True
      then have k: "drop_spaces Q p s = drop_spaces Q p cs" using Cons sp by (simp add: drop_spaces_sp_yes)
      show ?thesis
      proof (cases cs)
        case Nil
        with k assms show ?thesis by simp
      next
        case (Cons e es)
        then have "\<not> isWs e" using assms(1) sp \<open>s = c # cs\<close> by simp
        then have "head_opt (drop_spaces Q p cs) = Some e" using Cons by (simp add: drop_spaces_nows)
        with k assms(2,3) \<open>\<not> isWs e\<close> show ?thesis by simp
      qed
    qed
  qed
qed

lemma single_spaced_head_opt:
  "single_spaced (sp # cs) \<Longrightarrow> head_opt cs = None \<or> (\<exists>d. head_opt cs = Some d \<and> d \<noteq> sp)"
  by (cases cs) auto

lemma single_spaced_tl: "single_spaced (c # cs) \<Longrightarrow> single_spaced cs"
  by simp

lemma single_spaced_ws: "single_spaced (c # cs) \<Longrightarrow> isWs c \<Longrightarrow> c = sp"
  by simp

lemma drop_spaces_single: "single_spaced s \<Longrightarrow> single_spaced (drop_spaces Q p s)"
proof (induction s arbitrary: p)
  case Nil
  then show ?case by simp
next
  case (Cons c cs)
  have tl: "single_spaced cs" using Cons.prems by simp
  show ?case
  proof (cases "c = sp")
    case False
    then have "\<not> isWs c" using Cons.prems by auto
    then show ?thesis using False Cons.IH [OF tl] by (simp add: drop_spaces_nosp)
  next
    case sp: True
    show ?thesis
    proof (cases "Q p (head_opt cs)")
      case True
      then show ?thesis using sp Cons.IH [OF tl] by (simp add: drop_spaces_sp_yes)
    next
      case False
      have "head_opt (drop_spaces Q (Some sp) cs) = Some d \<Longrightarrow> \<not> isWs d" for d
      proof
        assume a: "head_opt (drop_spaces Q (Some sp) cs) = Some d" "isWs d"
        then have "head_opt cs = Some d" using head_opt_drop_spaces_ws [OF tl] by blast
        then show False using Cons.prems sp a(2) by simp
      qed
      then show ?thesis using sp False Cons.IH [OF tl] by (simp add: drop_spaces_sp_no)
    qed
  qed
qed

lemma drop_spaces_compose:
  "single_spaced s \<Longrightarrow> drop_spaces Q2 p (drop_spaces Q1 p s) = drop_spaces (\<lambda>a b. Q1 a b \<or> Q2 a b) p s"
proof (induction s arbitrary: p)
  case Nil
  then show ?case by simp
next
  case (Cons c cs)
  have ih: "drop_spaces Q2 q (drop_spaces Q1 q cs) = drop_spaces (\<lambda>a b. Q1 a b \<or> Q2 a b) q cs" for q
    using Cons by simp
  show ?case
  proof (cases "c = sp")
    case False
    then show ?thesis using ih by (simp add: drop_spaces_nosp)
  next
    case True
    then have n: "head_opt cs = None \<or> (\<exists>d. head_opt cs = Some d \<and> d \<noteq> sp)"
      using Cons.prems single_spaced_head_opt by blast
    then have nk: "head_opt (drop_spaces Q1 (Some sp) cs) = head_opt cs"
      by (auto simp: head_opt_drop_spaces head_opt_drop_spaces_None)
    have nsp: "\<forall>es. cs \<noteq> sp # es" using n by auto
    have nsp': "\<forall>es. drop_spaces Q1 (Some sp) cs \<noteq> sp # es"
      using nk n by (cases "drop_spaces Q1 (Some sp) cs") auto
    show ?thesis
    proof (cases "Q1 p (head_opt cs)")
      case q1: True
      then show ?thesis using True ih by (simp add: drop_spaces_sp_yes)
    next
      case q1: False
      show ?thesis
      proof (cases "Q2 p (head_opt cs)")
        case True
        have "drop_spaces Q2 p (drop_spaces Q1 p (c # cs)) = drop_spaces Q2 p (drop_spaces Q1 (Some sp) cs)"
          using \<open>c = sp\<close> q1 True nk by (simp add: drop_spaces_sp_yes drop_spaces_sp_no)
        also have "\<dots> = drop_spaces Q2 (Some sp) (drop_spaces Q1 (Some sp) cs)"
          using nsp' by (rule drop_spaces_indep)
        also have "\<dots> = drop_spaces (\<lambda>a b. Q1 a b \<or> Q2 a b) (Some sp) cs" by (rule ih)
        also have "\<dots> = drop_spaces (\<lambda>a b. Q1 a b \<or> Q2 a b) p cs"
          using nsp by (rule drop_spaces_indep)
        finally show ?thesis using \<open>c = sp\<close> True by (simp add: drop_spaces_sp_yes)
      next
        case False
        then show ?thesis using \<open>c = sp\<close> q1 nk ih by (simp add: drop_spaces_sp_no)
      qed
    qed
  qed
qed

lemma drop_spaces_idem: "single_spaced s \<Longrightarrow> drop_spaces Q p (drop_spaces Q p s) = drop_spaces Q p s"
  by (simp add: drop_spaces_compose)

lemma replace_all_None: "m (c # cs) = None \<Longrightarrow> replace_all m (c # cs) = c # replace_all m cs"
  by simp

lemma replace_all_Some:
  "m (c # cs) = Some (r, rest) \<Longrightarrow> length rest \<le> length cs \<Longrightarrow>
   replace_all m (c # cs) = r @ replace_all m rest"
  by simp

lemma single_spaced_dropWhile: "single_spaced (sp # cs) \<Longrightarrow> dropWhile isWs cs = cs"
  by (cases cs) auto

lemma single_spaced_sp_Cons: "single_spaced (sp # d # cs) \<Longrightarrow> \<not> isWs d"
  by simp

lemma not_ws_chars [simp]:
  "\<not> isWs ch_gt" "\<not> isWs ch_lt" "\<not> isWs ch_slash" "\<not> isWs ch_star" "\<not> isWs ch_semi"
  "\<not> isWs ch_lbrace" "\<not> isWs ch_rbrace" "\<not> isWs ch_comma" "\<not> isWs ch_colon"
  by (simp_all add: isWs_def isLineTerminator_def)

lemma ws_gt_single:
  assumes "single_spaced (c # cs)"
  shows "m_ws_gt (c # cs) =
     (if c = sp \<and> head_opt cs = Some ch_gt then Some ([ch_gt], tl cs) else None)"
proof (cases "isWs c")
  case False
  then have "c \<noteq> sp" by auto
  with False show ?thesis by simp
next
  case True
  then have c: "c = sp" using assms by simp
  then have d: "dropWhile isWs cs = cs" using assms single_spaced_dropWhile by blast
  show ?thesis using c d by (cases cs) simp_all
qed

lemma ws_gt_drop_spaces: "single_spaced s \<Longrightarrow> replace_all m_ws_gt s = drop_spaces before_gt p s"
proof (induction s arbitrary: p)
  case Nil
  then show ?case by simp
next
  case (Cons c cs)
  have tl: "single_spaced cs" using Cons.prems by simp
  note m = ws_gt_single [OF Cons.prems]
  show ?case
  proof (cases "c = sp")
    case False
    then have "m_ws_gt (c # cs) = None" using m by simp
    then show ?thesis using False Cons.IH [OF tl] by (simp add: drop_spaces_nosp)
  next
    case sp: True
    show ?thesis
    proof (cases "head_opt cs = Some ch_gt")
      case False
      then have "m_ws_gt (c # cs) = None" using m by simp
      moreover have "\<not> before_gt p (head_opt cs)" using False by (simp add: before_gt_def)
      ultimately show ?thesis using sp Cons.IH [OF tl]
        by (simp add: drop_spaces_sp_no)
    next
      case True
      then obtain rest where cs: "cs = ch_gt # rest" by (cases cs) auto
      have "m_ws_gt (c # cs) = Some ([ch_gt], rest)" using m sp cs by simp
      then have "replace_all m_ws_gt (c # cs) = [ch_gt] @ replace_all m_ws_gt rest"
        using cs by (intro replace_all_Some) simp_all
      also have "m_ws_gt (ch_gt # rest) = None" by simp
      then have "[ch_gt] @ replace_all m_ws_gt rest = replace_all m_ws_gt cs"
        unfolding cs by (simp only: replace_all_None append.simps)
      also have "\<dots> = drop_spaces before_gt p cs" by (rule Cons.IH [OF tl])
      also have "\<dots> = drop_spaces before_gt p (c # cs)"
        using sp True by (simp add: drop_spaces_sp_yes before_gt_def)
      finally show ?thesis .
    qed
  qed
qed

lemma gt_ws_lt_single:
  assumes "single_spaced (c # cs)"
  shows "m_gt_ws_lt (c # cs) =
     (if c = ch_gt \<and> head_opt cs = Some sp \<and> head_opt (tl cs) = Some ch_lt
      then Some ([ch_gt, ch_lt], tl (tl cs)) else None)"
proof (cases cs)
  case Nil
  then show ?thesis by simp
next
  case (Cons w ds)
  show ?thesis
  proof (cases "isWs w")
    case False
    then have "w \<noteq> sp" by auto
    with False Cons show ?thesis by simp
  next
    case True
    then have w: "w = sp" using assms Cons by simp
    then have d: "dropWhile isWs ds = ds" using assms Cons single_spaced_dropWhile by simp
    show ?thesis using Cons w d by (cases ds) simp_all
  qed
qed

lemma gt_ws_lt_drop_spaces:
  "single_spaced s \<Longrightarrow> (\<forall>cs. s = sp # cs \<longrightarrow> \<not> between_tags p (head_opt cs)) \<Longrightarrow>
   replace_all m_gt_ws_lt s = drop_spaces between_tags p s"
proof (induction "length s" arbitrary: s p rule: less_induct)
  case less
  show ?case
  proof (cases s)
    case Nil
    then show ?thesis by simp
  next
    case (Cons c cs)
    have ss: "single_spaced (c # cs)" using less.prems Cons by simp
    then have tl: "single_spaced cs" by simp
    note m = gt_ws_lt_single [OF ss]
    show ?thesis
    proof (cases "c = ch_gt \<and> head_opt cs = Some sp \<and> head_opt (tl cs) = Some ch_lt")
      case True
      then obtain rest where cs: "cs = sp # ch_lt # rest"
        by (cases cs; cases "tl cs") auto
      have r: "single_spaced rest" using tl cs by simp
      have "m_gt_ws_lt (c # cs) = Some ([ch_gt, ch_lt], rest)" using m True cs by simp
      then have "replace_all m_gt_ws_lt (c # cs) = [ch_gt, ch_lt] @ replace_all m_gt_ws_lt rest"
        using cs by (intro replace_all_Some) simp_all
      also have "replace_all m_gt_ws_lt rest = drop_spaces between_tags (Some ch_lt) rest"
        using Cons cs r by (intro less) (simp_all add: between_tags_def)
      also have "[ch_gt, ch_lt] @ drop_spaces between_tags (Some ch_lt) rest = drop_spaces between_tags p (c # cs)"
        using True cs by (simp add: drop_spaces_nosp drop_spaces_sp_yes between_tags_def)
      finally show ?thesis using Cons by simp
    next
      case False
      then have none: "m_gt_ws_lt (c # cs) = None" using m by simp
      have pre: "\<forall>es. cs = sp # es \<longrightarrow> \<not> between_tags (Some c) (head_opt es)"
        using False by (auto simp: between_tags_def)
      have ih: "replace_all m_gt_ws_lt cs = drop_spaces between_tags (Some c) cs"
        using Cons tl pre by (intro less) simp_all
      show ?thesis
      proof (cases "c = sp")
        case True
        then have "\<not> between_tags p (head_opt cs)" using less.prems(2) Cons by simp
        then show ?thesis using none ih True Cons
          by (simp add: drop_spaces_sp_no)
      next
        case False
        then show ?thesis using none ih Cons
          by (simp add: drop_spaces_nosp)
      qed
    qed
  qed
qed

lemma lt_ws_single:
  assumes "single_spaced (c # cs)"
  shows "m_lt_ws (c # cs) =
     (if c = ch_lt \<and> head_opt cs = Some sp then Some ([ch_lt], tl cs) else None)"
proof (cases cs)
  case Nil
  then show ?thesis by simp
next
  case (Cons w ds)
  show ?thesis
  proof (cases "isWs w")
    case False
    then have "w \<noteq> sp" by auto
    with False Cons show ?thesis by simp
  next
    case True
    then have w: "w = sp" using assms Cons by simp
    then have d: "dropWhile isWs ds = ds" using assms Cons single_spaced_dropWhile by simp
    show ?thesis using Cons w d by simp
  qed
qed

lemma lt_ws_drop_spaces:
  "single_spaced s \<Longrightarrow> (\<forall>cs. s = sp # cs \<longrightarrow> \<not> after_lt p (head_opt cs)) \<Longrightarrow>
   replace_all m_lt_ws s = drop_spaces after_lt p s"
proof (induction "length s" arbitrary: s p rule: less_induct)
  case less
  show ?case
  proof (cases s)
    case Nil
    then show ?thesis by simp
  next
    case (Cons c cs)
    have ss: "single_spaced (c # cs)" using less.prems Cons by simp
    then have tl: "single_spaced cs" by simp
    note m = lt_ws_single [OF ss]
    show ?thesis
    proof (cases "c = ch_lt \<and> head_opt cs = Some sp")
      case True
      then obtain rest where cs: "cs = sp # rest" by (cases cs) auto
      have r: "single_spaced rest" using tl cs by simp
      have nsp: "\<forall>es. rest \<noteq> sp # es" using tl cs by auto
      have "m_lt_ws (c # cs) = Some ([ch_lt], rest)" using m True cs by simp
      then have "replace_all m_lt_ws (c # cs) = [ch_lt] @ replace_all m_lt_ws rest"
        using cs by (intro replace_all_Some) simp_all
      also have "replace_all m_lt_ws rest = drop_spaces after_lt (Some ch_lt) rest"
        using Cons cs r nsp by (intro less) simp_all
      also have "[ch_lt] @ drop_spaces after_lt (Some ch_lt) rest = drop_spaces after_lt p (c # cs)"
        using True cs by (simp add: drop_spaces_nosp drop_spaces_sp_yes after_lt_def)
      finally show ?thesis using Cons by simp
    next
      case False
      then have none: "m_lt_ws (c # cs) = None" using m by simp
      have pre: "\<forall>es. cs = sp # es \<longrightarrow> \<not> after_lt (Some c) (head_opt es)"
        using False by (auto simp: after_lt_def)
      have ih: "replace_all m_lt_ws cs = drop_spaces after_lt (Some c) cs"
        using Cons tl pre by (intro less) simp_all
      show ?thesis
      proof (cases "c = sp")
        case True
        then have "\<not> after_lt p (head_opt cs)" using less.prems(2) Cons by simp
        then show ?thesis using none ih True Cons
          by (simp add: drop_spaces_sp_no)
      next
        case False
        then show ?thesis using none ih Cons
          by (simp add: drop_spaces_nosp)
      qed
    qed
  qed
qed

lemma drop_spaces_Qf_Some: "drop_spaces at_start (Some d) s = s"
proof (induction s arbitrary: d)
  case Nil
  then show ?case by simp
next
  case (Cons c cs)
  then show ?case by (cases "c = sp") (simp_all add: drop_spaces_nosp drop_spaces_sp_no at_start_def)
qed

lemma dropWhile_drop_spaces: "single_spaced s \<Longrightarrow> dropWhile isWs s = drop_spaces at_start None s"
proof (cases s)
  case Nil
  then show ?thesis by simp
next
  case (Cons c cs)
  assume ss: "single_spaced s"
  show ?thesis
  proof (cases "isWs c")
    case False
    then have "c \<noteq> sp" by auto
    then show ?thesis using False Cons by (simp add: drop_spaces_nosp drop_spaces_Qf_Some)
  next
    case True
    then have c: "c = sp" using ss Cons by simp
    then have d: "dropWhile isWs cs = cs" using ss Cons single_spaced_dropWhile by blast
    have "drop_spaces at_start None cs = cs"
    proof (cases cs)
      case Nil
      then show ?thesis by simp
    next
      case (Cons e es)
      then have "e \<noteq> sp" using ss c \<open>s = c # cs\<close> by auto
      then show ?thesis using Cons by (simp add: drop_spaces_nosp drop_spaces_Qf_Some)
    qed
    then show ?thesis using c d Cons by (simp add: drop_spaces_sp_yes at_start_def)
  qed
qed

lemma strip_end_Cons:
  "rev (dropWhile P (rev (c # cs))) =
     (if P c \<and> rev (dropWhile P (rev cs)) = [] then [] else c # rev (dropWhile P (rev cs)))"
  by (simp add: dropWhile_append)

lemma strip_end_drop_spaces: "single_spaced t \<Longrightarrow> rev (dropWhile isWs (rev t)) = drop_spaces at_end p t"
proof (induction t arbitrary: p)
  case Nil
  then show ?case by simp
next
  case (Cons c cs)
  have tl: "single_spaced cs" using Cons.prems by simp
  note ih = Cons.IH [OF tl]
  show ?case
  proof (cases "c = sp")
    case False
    then have "\<not> isWs c" using Cons.prems by auto
    then have e: "rev (dropWhile isWs (rev (c # cs))) = c # rev (dropWhile isWs (rev cs))"
      by (simp only: strip_end_Cons) simp
    have k: "drop_spaces at_end p (c # cs) = c # drop_spaces at_end (Some c) cs" using False by (rule drop_spaces_nosp)
    show ?thesis by (simp only: e k ih [of "Some c"])
  next
    case sp: True
    show ?thesis
    proof (cases cs)
      case Nil
      then show ?thesis using sp by (simp add: drop_spaces_sp_yes at_end_def)
    next
      case (Cons d ds)
      then have d: "\<not> isWs d" using Cons.prems sp by simp
      then have ne: "rev (dropWhile isWs (rev cs)) \<noteq> []" using Cons by auto
      have "\<not> at_end p (head_opt cs)" using Cons by (simp add: at_end_def)
      then have k: "drop_spaces at_end p (c # cs) = c # drop_spaces at_end (Some c) cs"
        using sp by (simp add: drop_spaces_sp_no)
      have e: "rev (dropWhile isWs (rev (c # cs))) = c # rev (dropWhile isWs (rev cs))"
        using ne by (simp only: strip_end_Cons) simp
      show ?thesis by (simp only: e k ih [of "Some c"])
    qed
  qed
qed

lemma trim_drop_spaces:
  assumes "single_spaced s"
  shows "trim s = drop_spaces (\<lambda>a b. at_start a b \<or> at_end a b) None s"
proof -
  have "single_spaced (drop_spaces at_start None s)" using assms by (rule drop_spaces_single)
  then have "trim s = drop_spaces at_end None (drop_spaces at_start None s)"
    unfolding trim_def dropWhile_drop_spaces [OF assms] by (rule strip_end_drop_spaces)
  then show ?thesis using assms by (simp add: drop_spaces_compose)
qed

lemma html_tail_drop_spaces:
  assumes "single_spaced s"
  shows "trim (replace_all m_lt_ws (replace_all m_ws_gt (replace_all m_gt_ws_lt s)))
     = drop_spaces html_drop None s"
proof -
  have 1: "replace_all m_gt_ws_lt s = drop_spaces between_tags None s"
    using assms by (intro gt_ws_lt_drop_spaces) (simp_all add: between_tags_def)
  have s1: "single_spaced (drop_spaces between_tags None s)" using assms by (rule drop_spaces_single)
  have 2: "replace_all m_ws_gt (drop_spaces between_tags None s) = drop_spaces (\<lambda>a b. between_tags a b \<or> before_gt a b) None s"
    using ws_gt_drop_spaces [OF s1, of None] assms by (simp add: drop_spaces_compose)
  have s2: "single_spaced (drop_spaces (\<lambda>a b. between_tags a b \<or> before_gt a b) None s)"
    using assms by (rule drop_spaces_single)
  have 3: "replace_all m_lt_ws (drop_spaces (\<lambda>a b. between_tags a b \<or> before_gt a b) None s)
      = drop_spaces (\<lambda>a b. (between_tags a b \<or> before_gt a b) \<or> after_lt a b) None s"
    using lt_ws_drop_spaces [OF s2, of None] assms by (simp add: drop_spaces_compose after_lt_def)
  have s3: "single_spaced (drop_spaces (\<lambda>a b. (between_tags a b \<or> before_gt a b) \<or> after_lt a b) None s)"
    using assms by (rule drop_spaces_single)
  have 4: "trim (drop_spaces (\<lambda>a b. (between_tags a b \<or> before_gt a b) \<or> after_lt a b) None s)
      = drop_spaces (\<lambda>a b. ((between_tags a b \<or> before_gt a b) \<or> after_lt a b) \<or> (at_start a b \<or> at_end a b)) None s"
    using trim_drop_spaces [OF s3] assms by (simp add: drop_spaces_compose)
  have "html_drop = (\<lambda>a b. ((between_tags a b \<or> before_gt a b) \<or> after_lt a b) \<or> (at_start a b \<or> at_end a b))"
    by (intro ext) (simp add: html_drop_def)
  then show ?thesis using 1 2 3 4 by simp
qed

lemma minifyHTML_drop_spaces: "minifyHTML x = drop_spaces html_drop None (replace_all m_ws_run x)"
  unfolding minifyHTML_def by (rule html_tail_drop_spaces) (rule collapse_single)

lemma minifyHTML_idem: "minifyHTML (minifyHTML x) = minifyHTML x"
proof -
  let ?y = "replace_all m_ws_run x"
  let ?z = "drop_spaces html_drop None ?y"
  have y: "single_spaced ?y" by (rule collapse_single)
  then have z: "single_spaced ?z" by (rule drop_spaces_single)
  have "minifyHTML ?z = drop_spaces html_drop None (replace_all m_ws_run ?z)" by (rule minifyHTML_drop_spaces)
  also have "replace_all m_ws_run ?z = ?z" using z by (rule collapse_id)
  also have "drop_spaces html_drop None ?z = ?z" using y by (rule drop_spaces_idem)
  finally show ?thesis by (simp add: minifyHTML_drop_spaces)
qed

lemma block_comment_None: "c \<noteq> ch_slash \<Longrightarrow> m_block_comment (c # cs) = None"
  by (cases cs) simp_all

lemma line_comment_None: "c \<noteq> ch_slash \<Longrightarrow> m_line_comment (c # cs) = None"
  by (cases cs) simp_all

lemma no_slash_block: "ch_slash \<notin> set s \<Longrightarrow> replace_all m_block_comment s = s"
  by (induction s) (simp_all add: block_comment_None)

lemma no_slash_line: "ch_slash \<notin> set s \<Longrightarrow> replace_all m_line_comment s = s"
  by (induction s) (simp_all add: line_comment_None)

lemma set_collapse: "set (replace_all m_ws_run s) \<subseteq> insert sp (set s)"
proof (induction "length s" arbitrary: s rule: less_induct)
  case less
  show ?case
  proof (cases s)
    case Nil
    then show ?thesis by simp
  next
    case (Cons c cs)
    show ?thesis
    proof (cases "isWs c")
      case True
      have "length (dropWhile isWs cs) < length s"
        using Cons length_dropWhile_le [of isWs cs] by simp
      then have "set (replace_all m_ws_run (dropWhile isWs cs)) \<subseteq> insert sp (set (dropWhile isWs cs))"
        by (rule less)
      moreover have "set (dropWhile isWs cs) \<subseteq> set cs" by (rule set_dropWhileD [THEN subsetI])
      ultimately show ?thesis using Cons True
        by (simp only: collapse_Cons) auto
    next
      case False
      have "set (replace_all m_ws_run cs) \<subseteq> insert sp (set cs)" using Cons by (intro less) simp
      then show ?thesis using Cons False by (simp only: collapse_Cons) auto
    qed
  qed
qed

lemma set_drop_spaces: "set (drop_spaces Q p s) \<subseteq> set s"
proof (induction s arbitrary: p)
  case Nil
  then show ?case by simp
next
  case (Cons c cs)
  have ih: "set (drop_spaces Q q cs) \<subseteq> set cs" for q by (rule Cons.IH)
  show ?case
  proof (cases "c = sp")
    case False
    then show ?thesis using ih [of "Some c"] by (auto simp: drop_spaces_nosp)
  next
    case True
    then show ?thesis using ih [of p] ih [of "Some sp"]
      by (cases "Q p (head_opt cs)") (auto simp: drop_spaces_sp_yes drop_spaces_sp_no)
  qed
qed

lemma slash_not_sp: "ch_slash \<noteq> sp"
  by simp

lemma no_slash_collapse: "ch_slash \<notin> set s \<Longrightarrow> ch_slash \<notin> set (replace_all m_ws_run s)"
  using set_collapse [of s] by auto

lemma no_slash_drop_spaces: "ch_slash \<notin> set s \<Longrightarrow> ch_slash \<notin> set (drop_spaces Q p s)"
  using set_drop_spaces [of Q p s] by auto

lemma isPunct_not_ws: "isPunct c \<Longrightarrow> \<not> isWs c"
  by (auto simp: isPunct_def isWs_def isLineTerminator_def)

lemma single_dropWhile:
  "single_spaced s \<Longrightarrow> dropWhile isWs s = (if head_opt s = Some sp then tl s else s)"
proof (cases s)
  case Nil
  then show ?thesis by simp
next
  case (Cons c cs)
  assume ss: "single_spaced s"
  show ?thesis
  proof (cases "isWs c")
    case False
    then have "c \<noteq> sp" by auto
    with False Cons show ?thesis by simp
  next
    case True
    then have c: "c = sp" using ss Cons by simp
    then have "dropWhile isWs cs = cs" using ss Cons single_spaced_dropWhile by blast
    then show ?thesis using c Cons by simp
  qed
qed

lemma tighten_drop_spaces:
  "single_spaced s \<Longrightarrow> (head_opt s = Some sp \<longrightarrow> \<not> punct_opt p) \<Longrightarrow>
   replace_all m_tighten s = drop_spaces by_punct p s"
proof (induction "length s" arbitrary: s p rule: less_induct)
  case less
  have after: "replace_all m_tighten (dropWhile isWs rest) = drop_spaces by_punct (Some d) rest"
    if d: "isPunct d" and r: "single_spaced rest" and l: "length rest < length s" for d rest
  proof (cases "head_opt rest = Some sp")
    case True
    then obtain r2 where r2: "rest = sp # r2" by (cases rest) auto
    then have n: "head_opt r2 \<noteq> Some sp" using r by (cases r2) auto
    have "replace_all m_tighten r2 = drop_spaces by_punct (Some d) r2"
      using r r2 l n by (intro less) simp_all
    moreover have "dropWhile isWs rest = r2" using single_dropWhile [OF r] r2 by simp
    moreover have "drop_spaces by_punct (Some d) rest = drop_spaces by_punct (Some d) r2"
      using r2 d by (simp add: drop_spaces_sp_yes by_punct_def)
    ultimately show ?thesis by simp
  next
    case False
    then have "dropWhile isWs rest = rest" using single_dropWhile [OF r] by simp
    moreover have "replace_all m_tighten rest = drop_spaces by_punct (Some d) rest"
      using r l False by (intro less) simp_all
    ultimately show ?thesis by simp
  qed
  show ?case
  proof (cases s)
    case Nil
    then show ?thesis by simp
  next
    case (Cons c cs)
    have ss: "single_spaced (c # cs)" using less.prems Cons by simp
    then have tl: "single_spaced cs" by simp
    show ?thesis
    proof (cases "c = sp")
      case sp: True
      have dw: "dropWhile isWs (c # cs) = cs"
        using single_dropWhile [OF ss] sp by simp
      have np: "\<not> punct_opt p" using less.prems(2) Cons sp by simp
      show ?thesis
      proof (cases "punct_opt (head_opt cs)")
        case True
        then obtain d rest where cs: "cs = d # rest" "isPunct d" by (cases cs) auto
        have rest: "single_spaced rest" using tl cs by simp
        have dsp: "d \<noteq> sp" using cs(2) isPunct_not_ws [of d] by auto
        have "m_tighten (c # cs) = Some ([d], dropWhile isWs rest)"
          using dw cs by (simp add: m_tighten_def)
        then have "replace_all m_tighten (c # cs) = [d] @ replace_all m_tighten (dropWhile isWs rest)"
          using cs length_dropWhile_le [of isWs rest] by (intro replace_all_Some) simp_all
        also have "replace_all m_tighten (dropWhile isWs rest) = drop_spaces by_punct (Some d) rest"
          using cs rest Cons by (intro after) simp_all
        also have "[d] @ drop_spaces by_punct (Some d) rest = drop_spaces by_punct p (c # cs)"
          using sp cs dsp by (simp add: drop_spaces_sp_yes drop_spaces_nosp by_punct_def)
        finally show ?thesis using Cons by simp
      next
        case False
        then have "m_tighten (c # cs) = None"
          using dw by (cases cs) (simp_all add: m_tighten_def)
        moreover have "replace_all m_tighten cs = drop_spaces by_punct (Some sp) cs"
          using tl Cons by (intro less) (simp_all add: isPunct_def)
        moreover have "\<not> by_punct p (head_opt cs)" using np False by (simp add: by_punct_def)
        ultimately show ?thesis using sp Cons by (simp add: drop_spaces_sp_no)
      qed
    next
      case nsp: False
      then have nws: "\<not> isWs c" using ss by auto
      then have dw: "dropWhile isWs (c # cs) = c # cs" by simp
      show ?thesis
      proof (cases "isPunct c")
        case True
        have "m_tighten (c # cs) = Some ([c], dropWhile isWs cs)"
          using dw True by (simp add: m_tighten_def)
        then have "replace_all m_tighten (c # cs) = [c] @ replace_all m_tighten (dropWhile isWs cs)"
          using length_dropWhile_le [of isWs cs] by (intro replace_all_Some) simp_all
        also have "replace_all m_tighten (dropWhile isWs cs) = drop_spaces by_punct (Some c) cs"
          using True tl Cons by (intro after) simp_all
        also have "[c] @ drop_spaces by_punct (Some c) cs = drop_spaces by_punct p (c # cs)"
          using nsp by (simp add: drop_spaces_nosp)
        finally show ?thesis using Cons by simp
      next
        case False
        then have "m_tighten (c # cs) = None" using dw by (simp add: m_tighten_def)
        moreover have "replace_all m_tighten cs = drop_spaces by_punct (Some c) cs"
          using tl Cons False by (intro less) simp_all
        ultimately show ?thesis using nsp Cons by (simp add: drop_spaces_nosp)
      qed
    qed
  qed
qed

lemma js_tail_drop_spaces:
  assumes "single_spaced s"
  shows "trim (replace_all m_tighten s) = drop_spaces js_drop None s"
proof -
  have 1: "replace_all m_tighten s = drop_spaces by_punct None s"
    using assms by (intro tighten_drop_spaces) simp_all
  have s1: "single_spaced (drop_spaces by_punct None s)" using assms by (rule drop_spaces_single)
  have "js_drop = (\<lambda>a b. by_punct a b \<or> (at_start a b \<or> at_end a b))"
    by (intro ext) (simp add: js_drop_def)
  then show ?thesis using 1 trim_drop_spaces [OF s1] assms by (simp add: drop_spaces_compose)
qed

lemma minifyJS_drop_spaces:
  "ch_slash \<notin> set x \<Longrightarrow> minifyJS x = drop_spaces js_drop None (replace_all m_ws_run x)"
proof -
  assume a: "ch_slash \<notin> set x"
  have "minifyJS x = trim (replace_all m_tighten (replace_all m_ws_run x))"
    unfolding minifyJS_def by (simp only: no_slash_block [OF a] no_slash_line [OF a])
  also have "\<dots> = drop_spaces js_drop None (replace_all m_ws_run x)"
    by (rule js_tail_drop_spaces) (rule collapse_single)
  finally show ?thesis .
qed

lemma minifyJS_idem:
  assumes "ch_slash \<notin> set x"
  shows "minifyJS (minifyJS x) = minifyJS x"
proof -
  let ?y = "replace_all m_ws_run x"
  let ?z = "drop_spaces js_drop None ?y"
  have y: "single_spaced ?y" by (rule collapse_single)
  then have z: "single_spaced ?z" by (rule drop_spaces_single)
  have nz: "ch_slash \<notin> set ?z" using assms by (intro no_slash_drop_spaces no_slash_collapse)
  have "minifyJS ?z = drop_spaces js_drop None (replace_all m_ws_run ?z)" using nz by (rule minifyJS_drop_spaces)
  also have "replace_all m_ws_run ?z = ?z" using z by (rule collapse_id)
  also have "drop_spaces js_drop None ?z = ?z" using y by (rule drop_spaces_idem)
  finally show ?thesis using assms by (simp add: minifyJS_drop_spaces)
qed

lemma non_ws_Nil [simp]: "non_ws [] = []"
  by (simp add: non_ws_def)

lemma non_ws_Cons: "non_ws (c # cs) = (if isWs c then non_ws cs else c # non_ws cs)"
  by (simp add: non_ws_def)

lemma non_ws_dropWhile: "non_ws (dropWhile isWs s) = non_ws s"
  by (induction s) (simp_all add: non_ws_Cons)

lemma head_opt_non_ws_dropWhile: "head_opt (non_ws s) = head_opt (dropWhile isWs s)"
  by (induction s) (simp_all add: non_ws_Cons)

lemma non_ws_collapse: "non_ws (replace_all m_ws_run s) = non_ws s"
proof (induction "length s" arbitrary: s rule: less_induct)
  case less
  show ?case
  proof (cases s)
    case Nil
    then show ?thesis by simp
  next
    case (Cons c cs)
    show ?thesis
    proof (cases "isWs c")
      case True
      have "length (dropWhile isWs cs) < length s"
        using Cons length_dropWhile_le [of isWs cs] by simp
      then have "non_ws (replace_all m_ws_run (dropWhile isWs cs)) = non_ws (dropWhile isWs cs)"
        by (rule less)
      then show ?thesis using Cons True
        by (simp add: collapse_Cons non_ws_Cons non_ws_dropWhile del: replace_all.simps)
    next
      case False
      have "non_ws (replace_all m_ws_run cs) = non_ws cs" using Cons by (intro less) simp
      then show ?thesis using Cons False
        by (simp add: collapse_Cons non_ws_Cons del: replace_all.simps)
    qed
  qed
qed

lemma non_ws_drop_spaces: "non_ws (drop_spaces Q p s) = non_ws s"
proof (induction s arbitrary: p)
  case Nil
  then show ?case by simp
next
  case (Cons c cs)
  show ?case
  proof (cases "c = sp")
    case False
    then show ?thesis using Cons [of "Some c"] by (simp add: drop_spaces_nosp non_ws_Cons)
  next
    case True
    then show ?thesis using Cons [of p] Cons [of "Some sp"]
      by (cases "Q p (head_opt cs)") (simp_all add: drop_spaces_sp_yes drop_spaces_sp_no non_ws_Cons)
  qed
qed

lemma succ_Cons:
  "successively P (x # xs) \<longleftrightarrow> (\<forall>y. head_opt xs = Some y \<longrightarrow> P x y) \<and> successively P xs"
  by (cases xs) simp_all

lemma succ_non_ws_tl: "successively P (non_ws (c # cs)) \<Longrightarrow> successively P (non_ws cs)"
  by (simp add: non_ws_Cons succ_Cons split: if_splits)

lemma semi_brace_Some:
  assumes "m_semi_brace (c # cs) = Some (r, rest)"
  shows "c = ch_semi" "r = [ch_rbrace]" "dropWhile isWs cs = ch_rbrace # rest"
  using assms by (auto split: if_splits list.splits)

lemma semi_brace_length:
  assumes "m_semi_brace (c # cs) = Some (r, rest)"
  shows "length rest < length cs"
proof -
  have "length (ch_rbrace # rest) \<le> length cs"
    using semi_brace_Some(3) [OF assms] length_dropWhile_le [of isWs cs] by simp
  then show ?thesis by simp
qed

lemma semi_brace_match:
  assumes "m_semi_brace (c # cs) = Some (r, rest)"
  shows "replace_all m_semi_brace (c # cs) = ch_rbrace # replace_all m_semi_brace rest"
proof -
  have "replace_all m_semi_brace (c # cs) = r @ replace_all m_semi_brace rest"
    using assms semi_brace_length [OF assms] by (intro replace_all_Some) simp_all
  then show ?thesis using semi_brace_Some(2) [OF assms] by simp
qed

lemma semi_brace_case:
  "((case dw of [] \<Rightarrow> None
     | d # rest \<Rightarrow> if d = ch_rbrace then Some ([ch_rbrace], rest) else None) = None)
   = (head_opt dw \<noteq> Some ch_rbrace)"
  by (cases dw) simp_all

lemma semi_brace_None_iff:
  "m_semi_brace (c # cs) = None \<longleftrightarrow> \<not> (c = ch_semi \<and> head_opt (non_ws cs) = Some ch_rbrace)"
  by (simp add: head_opt_non_ws_dropWhile semi_brace_case)

lemma semi_brace_id: "successively no_semi_brace (non_ws s) \<Longrightarrow> replace_all m_semi_brace s = s"
proof (induction s)
  case Nil
  then show ?case by simp
next
  case (Cons c cs)
  have tl: "successively no_semi_brace (non_ws cs)" using Cons.prems by (rule succ_non_ws_tl)
  have "m_semi_brace (c # cs) = None"
  proof (rule ccontr)
    assume "m_semi_brace (c # cs) \<noteq> None"
    then have c: "c = ch_semi" "head_opt (non_ws cs) = Some ch_rbrace"
      by (simp_all only: semi_brace_None_iff) simp_all
    then have "non_ws (c # cs) = ch_semi # non_ws cs" by (simp add: non_ws_Cons)
    then show False using Cons.prems c(2) by (simp add: succ_Cons no_semi_brace_def)
  qed
  then show ?case using Cons.IH [OF tl] by (simp only: replace_all_None)
qed

lemma semi_brace_hdtok:
  "head_opt (non_ws s) \<noteq> Some ch_semi \<Longrightarrow> head_opt (non_ws (replace_all m_semi_brace s)) = head_opt (non_ws s)"
proof (induction s)
  case Nil
  then show ?case by simp
next
  case (Cons c cs)
  show ?case
  proof (cases "isWs c")
    case True
    then have "c \<noteq> ch_semi" by auto
    then have "m_semi_brace (c # cs) = None" by simp
    then show ?thesis using True Cons
      by (simp only: replace_all_None non_ws_Cons) simp
  next
    case False
    then have "c \<noteq> ch_semi" using Cons.prems by (simp add: non_ws_Cons)
    then have "m_semi_brace (c # cs) = None" by simp
    then show ?thesis using False by (simp only: replace_all_None non_ws_Cons) simp
  qed
qed

lemma semi_brace_non_ws:
  "successively no_semi_semi (non_ws s) \<Longrightarrow> successively no_semi_brace (non_ws (replace_all m_semi_brace s))"
proof (induction "length s" arbitrary: s rule: less_induct)
  case less
  show ?case
  proof (cases s)
    case Nil
    then show ?thesis by simp
  next
    case (Cons c cs)
    have tl: "successively no_semi_semi (non_ws cs)" using less.prems Cons succ_non_ws_tl by blast
    show ?thesis
    proof (cases "m_semi_brace (c # cs)")
      case None
      have ih: "successively no_semi_brace (non_ws (replace_all m_semi_brace cs))"
        using tl Cons by (intro less) simp_all
      show ?thesis
      proof (cases "isWs c")
        case True
        then show ?thesis using None ih Cons by (simp only: replace_all_None non_ws_Cons) simp
      next
        case nws: False
        have "no_semi_brace c y" if y: "head_opt (non_ws (replace_all m_semi_brace cs)) = Some y" for y
        proof (cases "c = ch_semi")
          case False
          then show ?thesis by (simp add: no_semi_brace_def)
        next
          case True
          then have "non_ws (c # cs) = ch_semi # non_ws cs" by (simp add: non_ws_Cons)
          then have a: "head_opt (non_ws cs) \<noteq> Some ch_semi"
            using less.prems Cons by (auto simp: succ_Cons no_semi_semi_def)
          have b: "head_opt (non_ws cs) \<noteq> Some ch_rbrace"
            using None True by (simp only: semi_brace_None_iff) simp
          have "head_opt (non_ws (replace_all m_semi_brace cs)) = head_opt (non_ws cs)"
            using a by (rule semi_brace_hdtok)
          then show ?thesis using y b by (auto simp: no_semi_brace_def)
        qed
        then have "successively no_semi_brace (c # non_ws (replace_all m_semi_brace cs))"
          using ih by (simp add: succ_Cons)
        then show ?thesis using None nws Cons by (simp only: replace_all_None non_ws_Cons) simp
      qed
    next
      case (Some a)
      obtain r rest where a: "a = (r, rest)" by (cases a)
      note m = Some [unfolded a]
      have c: "c = ch_semi" and d: "dropWhile isWs cs = ch_rbrace # rest"
        using semi_brace_Some [OF m] by simp_all
      have "non_ws cs = ch_rbrace # non_ws rest"
        using non_ws_dropWhile [of cs] d by (simp add: non_ws_Cons)
      then have "successively no_semi_semi (non_ws rest)" using tl by (simp add: succ_Cons)
      then have "successively no_semi_brace (non_ws (replace_all m_semi_brace rest))"
        using semi_brace_length [OF m] Cons by (intro less) simp_all
      then have "successively no_semi_brace (non_ws (ch_rbrace # replace_all m_semi_brace rest))"
        by (simp add: non_ws_Cons succ_Cons no_semi_brace_def)
      then show ?thesis using Cons by (simp only: semi_brace_match [OF m])
    qed
  qed
qed

lemma single_spaced_dropWhile2: "single_spaced s \<Longrightarrow> single_spaced (dropWhile P s)"
  by (induction s) simp_all

lemma head_opt_semi_brace_ws:
  assumes "head_opt (replace_all m_semi_brace s) = Some d" "isWs d"
  shows "head_opt s = Some d"
proof (cases s)
  case Nil
  with assms show ?thesis by simp
next
  case (Cons c cs)
  show ?thesis
  proof (cases "m_semi_brace (c # cs)")
    case None
    then show ?thesis using assms Cons by simp
  next
    case (Some a)
    obtain r rest where a: "a = (r, rest)" by (cases a)
    have "head_opt (replace_all m_semi_brace s) = Some ch_rbrace"
      using semi_brace_match [OF Some [unfolded a]] Cons by simp
    then show ?thesis using assms by simp
  qed
qed

lemma semi_brace_single:
  "single_spaced s \<Longrightarrow> single_spaced (replace_all m_semi_brace s)"
proof (induction "length s" arbitrary: s rule: less_induct)
  case less
  show ?case
  proof (cases s)
    case Nil
    then show ?thesis by simp
  next
    case (Cons c cs)
    have ss: "single_spaced (c # cs)" using less.prems Cons by simp
    then have tl: "single_spaced cs" by simp
    show ?thesis
    proof (cases "m_semi_brace (c # cs)")
      case None
      have ih: "single_spaced (replace_all m_semi_brace cs)"
        using tl Cons by (intro less) simp_all
      have c: "isWs c \<longrightarrow> c = sp" using ss by simp
      have "\<not> isWs d" if "isWs c" "head_opt (replace_all m_semi_brace cs) = Some d" for d
      proof
        assume "isWs d"
        then have "head_opt cs = Some d" using that(2) head_opt_semi_brace_ws by blast
        then show False using ss that(1) \<open>isWs d\<close> by simp
      qed
      then have "isWs c \<longrightarrow> (\<forall>d. head_opt (replace_all m_semi_brace cs) = Some d \<longrightarrow> \<not> isWs d)"
        by blast
      then have "single_spaced (c # replace_all m_semi_brace cs)"
        using ih c by (simp only: single_spaced.simps) blast
      then show ?thesis using None Cons by (simp only: replace_all_None)
    next
      case (Some a)
      obtain r rest where a: "a = (r, rest)" by (cases a)
      note m = Some [unfolded a]
      have "single_spaced (dropWhile isWs cs)" using tl by (rule single_spaced_dropWhile2)
      then have "single_spaced rest" using semi_brace_Some(3) [OF m] by simp
      then have "single_spaced (replace_all m_semi_brace rest)"
        using semi_brace_length [OF m] Cons by (intro less) simp_all
      then have "single_spaced (ch_rbrace # replace_all m_semi_brace rest)" by simp
      then show ?thesis using Cons by (simp only: semi_brace_match [OF m])
    qed
  qed
qed

lemma set_semi_brace: "set (replace_all m_semi_brace s) \<subseteq> set s"
proof (induction "length s" arbitrary: s rule: less_induct)
  case less
  show ?case
  proof (cases s)
    case Nil
    then show ?thesis by simp
  next
    case (Cons c cs)
    show ?thesis
    proof (cases "m_semi_brace (c # cs)")
      case None
      have "set (replace_all m_semi_brace cs) \<subseteq> set cs" using Cons by (intro less) simp
      then show ?thesis using None Cons by (simp only: replace_all_None) auto
    next
      case (Some a)
      obtain r rest where a: "a = (r, rest)" by (cases a)
      note m = Some [unfolded a]
      have "set (ch_rbrace # rest) \<subseteq> set cs"
        using semi_brace_Some(3) [OF m] set_dropWhileD [of _ isWs cs] by (metis subsetI)
      moreover have "set (replace_all m_semi_brace rest) \<subseteq> set rest"
        using semi_brace_length [OF m] Cons by (intro less) simp
      ultimately show ?thesis using Cons by (simp only: semi_brace_match [OF m]) auto
    qed
  qed
qed

lemma no_slash_semi_brace:
  "ch_slash \<notin> set s \<Longrightarrow> ch_slash \<notin> set (replace_all m_semi_brace s)"
  using set_semi_brace [of s] by auto

lemma char_ws_drop_spaces:
  "\<not> isWs k \<Longrightarrow> single_spaced s \<Longrightarrow> (head_opt s = Some sp \<longrightarrow> p \<noteq> Some k) \<Longrightarrow>
   replace_all (m_char_ws k) s = drop_spaces (after_char k) p s"
proof (induction "length s" arbitrary: s p rule: less_induct)
  case less
  note k = less.prems(1)
  then have ksp: "k \<noteq> sp" by auto
  show ?case
  proof (cases s)
    case Nil
    then show ?thesis by simp
  next
    case (Cons c cs)
    have ss: "single_spaced (c # cs)" using less.prems Cons by simp
    then have tl: "single_spaced cs" by simp
    show ?thesis
    proof (cases "c = k")
      case True
      have m: "m_char_ws k (c # cs) = Some ([k], dropWhile isWs cs)" using True by simp
      have r: "replace_all (m_char_ws k) (c # cs) = [k] @ replace_all (m_char_ws k) (dropWhile isWs cs)"
        using m length_dropWhile_le [of isWs cs] by (intro replace_all_Some) simp_all
      have "replace_all (m_char_ws k) (dropWhile isWs cs) = drop_spaces (after_char k) (Some k) cs"
      proof (cases "head_opt cs = Some sp")
        case sp: True
        then obtain r2 where r2: "cs = sp # r2" by (cases cs) auto
        then have n: "head_opt r2 \<noteq> Some sp" using tl by (cases r2) auto
        have "replace_all (m_char_ws k) r2 = drop_spaces (after_char k) (Some k) r2"
          using k tl r2 n Cons by (intro less) simp_all
        moreover have "dropWhile isWs cs = r2" using single_dropWhile [OF tl] r2 by simp
        moreover have "drop_spaces (after_char k) (Some k) cs = drop_spaces (after_char k) (Some k) r2"
          using r2 by (simp add: drop_spaces_sp_yes after_char_def)
        ultimately show ?thesis by simp
      next
        case False
        then have "dropWhile isWs cs = cs" using single_dropWhile [OF tl] by simp
        moreover have "replace_all (m_char_ws k) cs = drop_spaces (after_char k) (Some k) cs"
          using k tl False Cons by (intro less) simp_all
        ultimately show ?thesis by simp
      qed
      then show ?thesis using r True ksp Cons by (simp add: drop_spaces_nosp del: replace_all.simps)
    next
      case ck: False
      then have none: "m_char_ws k (c # cs) = None" by simp
      have ih: "replace_all (m_char_ws k) cs = drop_spaces (after_char k) (Some c) cs"
        using k tl ck Cons by (intro less) simp_all
      show ?thesis
      proof (cases "c = sp")
        case True
        then have "\<not> after_char k p (head_opt cs)" using less.prems(3) Cons by (simp add: after_char_def)
        then show ?thesis using none ih True Cons by (simp add: drop_spaces_sp_no)
      next
        case False
        then show ?thesis using none ih Cons by (simp add: drop_spaces_nosp)
      qed
    qed
  qed
qed

lemma css_tail_drop_spaces:
  assumes "single_spaced s"
  shows "trim (replace_all (m_char_ws ch_colon) (replace_all (m_char_ws ch_comma)
       (replace_all (m_char_ws ch_semi) (replace_all (m_char_ws ch_lbrace) s))))
     = drop_spaces css_drop None s"
proof -
  let ?Q1 = "after_char ch_lbrace"
  let ?Q2 = "\<lambda>a b. ?Q1 a b \<or> after_char ch_semi a b"
  let ?Q3 = "\<lambda>a b. ?Q2 a b \<or> after_char ch_comma a b"
  let ?Q4 = "\<lambda>a b. ?Q3 a b \<or> after_char ch_colon a b"
  have 1: "replace_all (m_char_ws ch_lbrace) s = drop_spaces ?Q1 None s"
    using assms by (intro char_ws_drop_spaces) simp_all
  have s1: "single_spaced (drop_spaces ?Q1 None s)" using assms by (rule drop_spaces_single)
  have 2: "replace_all (m_char_ws ch_semi) (drop_spaces ?Q1 None s) = drop_spaces ?Q2 None s"
    using char_ws_drop_spaces [OF _ s1, of ch_semi None] assms by (simp add: drop_spaces_compose)
  have s2: "single_spaced (drop_spaces ?Q2 None s)" using assms by (rule drop_spaces_single)
  have 3: "replace_all (m_char_ws ch_comma) (drop_spaces ?Q2 None s) = drop_spaces ?Q3 None s"
    using char_ws_drop_spaces [OF _ s2, of ch_comma None] assms by (simp add: drop_spaces_compose)
  have s3: "single_spaced (drop_spaces ?Q3 None s)" using assms by (rule drop_spaces_single)
  have 4: "replace_all (m_char_ws ch_colon) (drop_spaces ?Q3 None s) = drop_spaces ?Q4 None s"
    using char_ws_drop_spaces [OF _ s3, of ch_colon None] assms by (simp add: drop_spaces_compose)
  have s4: "single_spaced (drop_spaces ?Q4 None s)" using assms by (rule drop_spaces_single)
  have 5: "trim (drop_spaces ?Q4 None s) = drop_spaces (\<lambda>a b. ?Q4 a b \<or> (at_start a b \<or> at_end a b)) None s"
    using trim_drop_spaces [OF s4] assms by (simp add: drop_spaces_compose)
  have "css_drop = (\<lambda>a b. ?Q4 a b \<or> (at_start a b \<or> at_end a b))"
    by (intro ext) (simp add: css_drop_def)
  then show ?thesis by (simp only: 1 2 3 4 5)
qed

lemma minifyCSS_drop_spaces:
  assumes "ch_slash \<notin> set x"
  shows "minifyCSS x = drop_spaces css_drop None (replace_all m_semi_brace (replace_all m_ws_run x))"
proof -
  have "single_spaced (replace_all m_semi_brace (replace_all m_ws_run x))"
    by (intro semi_brace_single collapse_single)
  then show ?thesis
    unfolding minifyCSS_def by (simp only: no_slash_block [OF assms] css_tail_drop_spaces)
qed

lemma minifyCSS_idem:
  assumes "ch_slash \<notin> set x" "successively no_semi_semi (non_ws x)"
  shows "minifyCSS (minifyCSS x) = minifyCSS x"
proof -
  let ?y = "replace_all m_semi_brace (replace_all m_ws_run x)"
  let ?z = "drop_spaces css_drop None ?y"
  have y: "single_spaced ?y" by (intro semi_brace_single collapse_single)
  then have z: "single_spaced ?z" by (rule drop_spaces_single)
  have nz: "ch_slash \<notin> set ?z"
    using assms(1) by (intro no_slash_drop_spaces no_slash_semi_brace no_slash_collapse)
  have "successively no_semi_brace (non_ws ?y)"
    using assms(2) by (intro semi_brace_non_ws) (simp add: non_ws_collapse)
  then have tz: "successively no_semi_brace (non_ws ?z)" by (simp add: non_ws_drop_spaces)
  have "minifyCSS ?z = drop_spaces css_drop None (replace_all m_semi_brace (replace_all m_ws_run ?z))"
    using nz by (rule minifyCSS_drop_spaces)
  also have "replace_all m_ws_run ?z = ?z" using z by (rule collapse_id)
  also have "replace_all m_semi_brace ?z = ?z" using tz by (rule semi_brace_id)
  also have "drop_spaces css_drop None ?z = ?z" using y by (rule drop_spaces_idem)
  finally show ?thesis using assms(1) by (simp add: minifyCSS_drop_spaces)
qed

lemma file_in_Nil [simp]: "\<not> file_in [] q"
  by (auto elim: file_in.cases)

lemma file_in_File:
  "file_in ((name, File c) # es) q \<longleftrightarrow> q = [name] \<or> file_in es q"
  by (subst file_in.simps, subst (2) file_in.simps) auto

lemma file_in_Dir:
  "file_in ((name, Dir sub) # es) q \<longleftrightarrow> (\<exists>q'. q = name # q' \<and> file_in sub q') \<or> file_in es q"
  by (subst file_in.simps, subst (3) file_in.simps) auto

lemma file_in_nonempty: "file_in es q \<Longrightarrow> q \<noteq> []"
  by (auto elim: file_in.cases)

lemma set_walk:
  "set (walk dir es ext) = {dir @ q | q. file_in es q \<and> endsWith (last q) ext}"
proof (induction dir es ext rule: walk.induct)
  case (1 dir ext)
  then show ?case by simp
next
  case (2 dir name c es ext)
  then show ?case by (auto simp: file_in_File)
next
  case (3 dir name sub es ext)
  have "set (walk (dir @ [name]) sub ext)
      = {dir @ q | q. (\<exists>q'. q = name # q' \<and> file_in sub q') \<and> endsWith (last q) ext}"
    using 3(1) by (auto simp: file_in_nonempty)
  then show ?case using 3(2) by (auto simp: file_in_Dir)
qed

section \<open>The minifiers never lengthen a text\<close>

text \<open>
  The three minifiers never lengthen their input, counted in code units or in bytes of
  the UTF-8 encoding.
\<close>

lemma minify_shrinks:
  "length (minifyHTML x) \<le> length x \<and> utf8_length (minifyHTML x) \<le> utf8_length x
   \<and> length (minifyCSS x) \<le> length x \<and> utf8_length (minifyCSS x) \<le> utf8_length x
   \<and> length (minifyJS x) \<le> length x \<and> utf8_length (minifyJS x) \<le> utf8_length x"
proof -
  note g = shrinking_m_ws_run shrinking_m_gt_ws_lt shrinking_m_ws_gt shrinking_m_lt_ws shrinking_m_block_comment
    shrinking_m_semi_brace shrinking_m_line_comment shrinking_m_tighten
  have c: "shrinking (m_char_ws ch_lbrace)" "shrinking (m_char_ws ch_semi)" "shrinking (m_char_ws ch_comma)"
    "shrinking (m_char_ws ch_colon)" by (simp_all add: shrinking_m_char_ws)
  note l = order_trans [OF length_replace_all] order_trans [OF length_trim]
  note u = order_trans [OF utf8_replace_all0] order_trans [OF utf8_trim]
  have "length (minifyHTML x) \<le> length x"
    unfolding minifyHTML_def by (intro l g order_refl)
  moreover have "utf8_length (minifyHTML x) \<le> utf8_length x"
    unfolding minifyHTML_def by (intro u g order_refl)
  moreover have "length (minifyCSS x) \<le> length x"
    unfolding minifyCSS_def by (intro l g c order_refl)
  moreover have "utf8_length (minifyCSS x) \<le> utf8_length x"
    unfolding minifyCSS_def by (intro u g c order_refl)
  moreover have "length (minifyJS x) \<le> length x"
    unfolding minifyJS_def by (intro l g order_refl)
  moreover have "utf8_length (minifyJS x) \<le> utf8_length x"
    unfolding minifyJS_def by (intro u g order_refl)
  ultimately show ?thesis by blast
qed

section \<open>The events a run emits\<close>

lemma emitsI:
  assumes "\<And>s r s'. f s = (r, s') \<Longrightarrow> \<exists>evs. trace s' = trace s @ evs \<and> (\<forall>ev\<in>set evs. P ev)"
  shows "emits P f"
  using assms unfolding emits_def by blast

lemma emitsD:
  assumes "emits P f" "f s = (r, s')"
  obtains evs where "trace s' = trace s @ evs" "\<forall>ev\<in>set evs. P ev"
  using assms unfolding emits_def by blast


lemma emits_mono: "emits P f \<Longrightarrow> (\<And>ev. P ev \<Longrightarrow> Q ev) \<Longrightarrow> emits Q f"
  unfolding emits_def by blast

lemma emits_ret: "emits P (ret x)"
  by (rule emitsI) (simp add: ret_def)

lemma emits_throw: "emits P (throw e)"
  by (rule emitsI) (simp add: throw_def)

lemma emits_emit: "P ev \<Longrightarrow> emits P (emit ev)"
  by (rule emitsI) (auto simp: emit_def)

lemma emits_pure: "emits P (\<lambda>s. (Ok (g s), s))"
  by (rule emitsI) simp

lemma bind_Ok: "f s = (Ok x, s1) \<Longrightarrow> bind f g s = g x s1"
  by (simp add: bind_def)

lemma bind_Throw: "f s = (Throw e, s1) \<Longrightarrow> bind f g s = (Throw e, s1)"
  by (simp add: bind_def)

lemma bind_cases:
  assumes "bind f g s = (r, s')"
  obtains (ok) x s1 where "f s = (Ok x, s1)" "g x s1 = (r, s')"
        | (throw) e where "f s = (Throw e, s')" "r = Throw e"
proof (cases "f s")
  case (Pair a s1)
  show ?thesis
  proof (cases a)
    case (Ok x)
    then show ?thesis using Pair assms by (intro ok [of x s1]) (simp_all add: bind_def)
  next
    case (Throw e)
    then show ?thesis using Pair assms by (intro throw [of e]) (simp_all add: bind_def)
  qed
qed

lemma emits_bind_res:
  assumes f: "emits P f"
    and r: "\<And>s x s'. f s = (Ok x, s') \<Longrightarrow> R x"
    and g: "\<And>x. R x \<Longrightarrow> emits P (g x)"
  shows "emits P (bind f g)"
proof (rule emitsI)
  fix s r s' assume b: "bind f g s = (r, s')"
  from b show "\<exists>evs. trace s' = trace s @ evs \<and> (\<forall>ev\<in>set evs. P ev)"
  proof (cases rule: bind_cases)
    case (ok x s1)
    obtain e1 where e1: "trace s1 = trace s @ e1" "\<forall>ev\<in>set e1. P ev"
      using emitsD [OF f ok(1)] by blast
    obtain e2 where e2: "trace s' = trace s1 @ e2" "\<forall>ev\<in>set e2. P ev"
      using emitsD [OF g [OF r [OF ok(1)]] ok(2)] by blast
    have "trace s' = trace s @ (e1 @ e2)" using e1 e2 by simp
    moreover have "\<forall>ev\<in>set (e1 @ e2). P ev" using e1 e2 by auto
    ultimately show ?thesis by blast
  next
    case (throw e)
    then show ?thesis using emitsD [OF f throw(1)] by blast
  qed
qed

lemma emits_bind: "emits P f \<Longrightarrow> (\<And>x. emits P (g x)) \<Longrightarrow> emits P (bind f g)"
  by (rule emits_bind_res [where R = "\<lambda>_. True"]) simp_all

lemma try_catch_cases:
  assumes "try_catch f h s = (r, s')"
  obtains (ok) x where "f s = (Ok x, s')" "r = Ok x"
        | (caught) e s1 where "f s = (Throw e, s1)" "h e s1 = (r, s')"
proof (cases "f s")
  case (Pair a s1)
  show ?thesis
  proof (cases a)
    case (Ok x)
    then show ?thesis using Pair assms by (intro ok [of x]) (simp_all add: try_catch_def)
  next
    case (Throw e)
    then show ?thesis using Pair assms by (intro caught [of e s1]) (simp_all add: try_catch_def)
  qed
qed

lemma emits_try:
  assumes f: "emits P f" and h: "\<And>e. emits P (h e)"
  shows "emits P (try_catch f h)"
proof (rule emitsI)
  fix s r s' assume b: "try_catch f h s = (r, s')"
  from b show "\<exists>evs. trace s' = trace s @ evs \<and> (\<forall>ev\<in>set evs. P ev)"
  proof (cases rule: try_catch_cases)
    case (ok x)
    then show ?thesis using emitsD [OF f ok(1)] by blast
  next
    case (caught e s1)
    obtain e1 where e1: "trace s1 = trace s @ e1" "\<forall>ev\<in>set e1. P ev"
      using emitsD [OF f caught(1)] by blast
    obtain e2 where e2: "trace s' = trace s1 @ e2" "\<forall>ev\<in>set e2. P ev"
      using emitsD [OF h caught(2)] by blast
    have "trace s' = trace s @ (e1 @ e2)" using e1 e2 by simp
    moreover have "\<forall>ev\<in>set (e1 @ e2). P ev" using e1 e2 by auto
    ultimately show ?thesis by blast
  qed
qed

lemma for_each_Cons_cases:
  assumes "for_each (x # xs) body s = (r, s')"
  obtains (ok) u s1 where "body x s = (Ok u, s1)" "for_each xs body s1 = (r, s')"
        | (throw) e where "body x s = (Throw e, s')" "r = Throw e"
proof (cases "body x s")
  case (Pair a s1)
  show ?thesis
  proof (cases a)
    case (Ok u)
    then show ?thesis using Pair assms by (intro ok [of u s1]) simp_all
  next
    case (Throw e)
    then show ?thesis using Pair assms by (intro throw [of e]) simp_all
  qed
qed

lemma emits_for_each:
  assumes "\<And>x. x \<in> set xs \<Longrightarrow> emits P (body x)"
  shows "emits P (for_each xs body)"
  using assms
proof (induction xs)
  case Nil
  show ?case by (rule emitsI) simp
next
  case (Cons x xs)
  have hd: "emits P (body x)" using Cons.prems by simp
  have tl: "emits P (for_each xs body)" using Cons by simp
  show ?case
  proof (rule emitsI)
    fix s r s' assume b: "for_each (x # xs) body s = (r, s')"
    from b show "\<exists>evs. trace s' = trace s @ evs \<and> (\<forall>ev\<in>set evs. P ev)"
    proof (cases rule: for_each_Cons_cases)
      case (ok u s1)
      obtain e1 where e1: "trace s1 = trace s @ e1" "\<forall>ev\<in>set e1. P ev"
        using emitsD [OF hd ok(1)] by blast
      obtain e2 where e2: "trace s' = trace s1 @ e2" "\<forall>ev\<in>set e2. P ev"
        using emitsD [OF tl ok(2)] by blast
      have "trace s' = trace s @ (e1 @ e2)" using e1 e2 by simp
      moreover have "\<forall>ev\<in>set (e1 @ e2). P ev" using e1 e2 by auto
      ultimately show ?thesis by blast
    next
      case (throw e)
      then show ?thesis using emitsD [OF hd throw(1)] by blast
    qed
  qed
qed

lemma emits_readFile: "P (Read p) \<Longrightarrow> emits P (readFile env p)"
  by (rule emitsI) (auto simp: readFile_def split: option.splits node.splits)

lemma emits_writeFile: "(\<And>c. P (Write p c)) \<Longrightarrow> emits P (writeFile env p c)"
  by (rule emitsI) (auto simp: writeFile_def split: sum.splits)

lemma emits_copyFile: "P (Copy a b) \<Longrightarrow> emits P (copyFile env a b)"
  by (rule emitsI) (auto simp: copyFile_def split: option.splits node.splits sum.splits)

lemma emits_ensureDir: "P (Mkdir p) \<Longrightarrow> emits P (ensureDir env p)"
  by (rule emitsI) (auto simp: ensureDir_def split: sum.splits if_splits)

lemma emits_sassCompile: "P (Sass f) \<Longrightarrow> emits P (sassCompile cfg env f)"
  by (rule emitsI) (auto simp: sassCompile_def split: sum.splits)

lemma emits_execTsc: "(\<And>r. P (Exec f r)) \<Longrightarrow> emits P (execTsc cfg env f)"
  by (rule emitsI) (auto simp: execTsc_def split: sum.splits)

lemma prefix_walk: "f \<in> set (walk dir es ext) \<Longrightarrow> prefix dir f"
proof (induction dir es ext rule: walk.induct)
  case (3 dir name sub es ext)
  then show ?case by (auto dest: append_prefixD)
qed (auto split: if_splits)

lemma prefix_subdirs: "d \<in> set (subdirs dir es) \<Longrightarrow> prefix dir d"
proof (induction dir es rule: subdirs.induct)
  case (3 dir name sub es)
  then show ?case by (auto dest: append_prefixD)
qed auto

lemma getFiles_result:
  "getFiles env dir ext s = (Ok fs, s') \<Longrightarrow> \<forall>f\<in>set fs. prefix dir f"
  by (auto simp: getFiles_def prefix_walk split: option.splits node.splits)

lemma getFiles_files: "getFiles env dir ext s = (r, s') \<Longrightarrow> files s' = files s"
  by (auto simp: getFiles_def split: option.splits node.splits)

lemma emits_getFiles:
  assumes "\<And>d. prefix dir d \<Longrightarrow> P (Readdir d)"
  shows "emits P (getFiles env dir ext)"
proof (rule emitsI)
  fix s r s' assume g: "getFiles env dir ext s = (r, s')"
  show "\<exists>evs. trace s' = trace s @ evs \<and> (\<forall>ev\<in>set evs. P ev)"
  proof (cases "lookup (files s) dir")
    case None
    then show ?thesis using g by (simp add: getFiles_def)
  next
    case (Some n)
    show ?thesis
    proof (cases n)
      case (File c)
      then show ?thesis using g Some by (simp add: getFiles_def)
    next
      case (Dir es)
      then have "trace s' = trace s @ map Readdir (dir # subdirs dir es)"
        using g Some by (auto simp: getFiles_def)
      moreover have "\<forall>ev\<in>set (map Readdir (dir # subdirs dir es)). P ev"
        using assms prefix_subdirs by auto
      ultimately show ?thesis by blast
    qed
  qed
qed

lemma emits_step:
  assumes "trace s1 = trace s @ e1" "\<forall>ev\<in>set e1. P ev"
    and "\<exists>evs. trace s' = trace s1 @ evs \<and> (\<forall>ev\<in>set evs. P ev)"
  shows "\<exists>evs. trace s' = trace s @ evs \<and> (\<forall>ev\<in>set evs. P ev)"
proof -
  obtain e2 where e2: "trace s' = trace s1 @ e2" "\<forall>ev\<in>set e2. P ev" using assms(3) by blast
  have "trace s' = trace s @ (e1 @ e2)" using assms(1) e2(1) by simp
  moreover have "\<forall>ev\<in>set (e1 @ e2). P ev" using assms(2) e2(2) by auto
  ultimately show ?thesis by blast
qed

lemma emits_copy_entries:
  assumes rd: "\<And>p. P (Readdir p)" and mk: "\<And>p. P (Mkdir p)" and cp: "\<And>p q. P (Copy p q)"
  shows "emits P (copy_entries env src dest es)"
proof -
  have "\<exists>evs. trace s' = trace s @ evs \<and> (\<forall>ev\<in>set evs. P ev)"
    if "copy_entries env src dest es s = (r, s')" for s r s'
    using that
  proof (induction env src dest es s arbitrary: r s' rule: copy_entries.induct)
    case (1 env src dest s)
    then show ?case by simp
  next
    case (2 env src dest name c es s)
    obtain a s1 where c1: "copyFile env (src @ [name]) (dest @ [name]) s = (a, s1)"
      by (cases "copyFile env (src @ [name]) (dest @ [name]) s")
    obtain e1 where e1: "trace s1 = trace s @ e1" "\<forall>ev\<in>set e1. P ev"
      using emitsD [OF emits_copyFile [of P, OF cp] c1] by blast
    show ?case
    proof (cases a)
      case (Ok u)
      have "copy_entries env src dest es s1 = (r, s')" using 2(2) c1 Ok by simp
      then have "\<exists>evs. trace s' = trace s1 @ evs \<and> (\<forall>ev\<in>set evs. P ev)"
        by (rule 2(1) [OF c1 [symmetric] Ok])
      then show ?thesis by (rule emits_step [OF e1])
    next
      case (Throw e)
      then have "s' = s1" using 2(2) c1 by simp
      then show ?thesis using e1 by blast
    qed
  next
    case (3 env src dest name sub es s)
    obtain a s1 where c1: "ensureDir env (dest @ [name]) s = (a, s1)"
      by (cases "ensureDir env (dest @ [name]) s")
    obtain e1 where e1: "trace s1 = trace s @ e1" "\<forall>ev\<in>set e1. P ev"
      using emitsD [OF emits_ensureDir [of P, OF mk] c1] by blast
    show ?case
    proof (cases a)
      case (Throw e)
      then have "s' = s1" using 3(3) c1 by simp
      then show ?thesis using e1 by blast
    next
      case (Ok u)
      let ?s1 = "s1\<lparr>trace := trace s1 @ [Readdir (src @ [name])]\<rparr>"
      obtain b s2 where c2: "copy_entries env (src @ [name]) (dest @ [name]) sub ?s1 = (b, s2)"
        by (cases "copy_entries env (src @ [name]) (dest @ [name]) sub ?s1")
      have "\<exists>evs. trace s2 = trace ?s1 @ evs \<and> (\<forall>ev\<in>set evs. P ev)"
        by (rule 3(1) [OF c1 [symmetric] Ok c2])
      then obtain e0 where e0: "trace s2 = trace ?s1 @ e0" "\<forall>ev\<in>set e0. P ev" by blast
      have "trace s2 = trace s1 @ (Readdir (src @ [name]) # e0)" using e0(1) by simp
      moreover have "\<forall>ev\<in>set (Readdir (src @ [name]) # e0). P ev" using e0(2) rd by simp
      ultimately have "\<exists>evs. trace s2 = trace s1 @ evs \<and> (\<forall>ev\<in>set evs. P ev)" by blast
      then have s2: "\<exists>evs. trace s2 = trace s @ evs \<and> (\<forall>ev\<in>set evs. P ev)"
        by (rule emits_step [OF e1])
      show ?thesis
      proof (cases b)
        case (Throw e)
        then have "s' = s2" using 3(3) c1 Ok c2 by simp
        then show ?thesis using s2 by simp
      next
        case ok2: (Ok v)
        have "copy_entries env src dest es s2 = (r, s')" using 3(3) c1 Ok c2 ok2 by simp
        then have t: "\<exists>evs. trace s' = trace s2 @ evs \<and> (\<forall>ev\<in>set evs. P ev)"
          by (rule 3(2) [OF c1 [symmetric] Ok c2 [symmetric] ok2])
        obtain e3 where e3: "trace s2 = trace s @ e3" "\<forall>ev\<in>set e3. P ev"
          using s2 by blast
        show ?thesis by (rule emits_step [OF e3 t])
      qed
    qed
  qed
  then show ?thesis by (intro emitsI)
qed

lemma emits_copyDirectory:
  assumes rd: "\<And>p. P (Readdir p)" and mk: "\<And>p. P (Mkdir p)" and cp: "\<And>p q. P (Copy p q)"
  shows "emits P (copyDirectory env src dest)"
  unfolding copyDirectory_def
proof (rule emits_bind [OF emits_ensureDir [of P, OF mk]], rule emitsI)
  fix x s r s'
  assume a: "(case lookup (files s) src of
        None \<Rightarrow> (Throw (fs_error env ENOENT src), s)
      | Some (File c) \<Rightarrow> (Throw (fs_error env ENOTDIR src), s)
      | Some (Dir es) \<Rightarrow> copy_entries env src dest es (s\<lparr>trace := trace s @ [Readdir src]\<rparr>))
      = (r, s')"
  show "\<exists>evs. trace s' = trace s @ evs \<and> (\<forall>ev\<in>set evs. P ev)"
  proof (cases "lookup (files s) src")
    case None
    then show ?thesis using a by simp
  next
    case (Some n)
    show ?thesis
    proof (cases n)
      case (File c)
      then show ?thesis using a Some by simp
    next
      case (Dir es)
      let ?s1 = "s\<lparr>trace := trace s @ [Readdir src]\<rparr>"
      have "copy_entries env src dest es ?s1 = (r, s')" using a Some Dir by simp
      then obtain e2 where e2: "trace s' = trace ?s1 @ e2" "\<forall>ev\<in>set e2. P ev"
        using emitsD [OF emits_copy_entries [of P, OF rd mk cp]] by blast
      have "trace s' = trace s @ (Readdir src # e2)" using e2(1) by simp
      moreover have "\<forall>ev\<in>set (Readdir src # e2). P ev" using e2(2) rd by simp
      ultimately show ?thesis by blast
    qed
  qed
qed

lemma emits_scan:
  assumes rd: "\<And>p. prefix root p \<Longrightarrow> P (Readdir p)"
    and g: "\<And>fs. \<forall>f\<in>set fs. prefix root f \<Longrightarrow> emits P (g fs)"
  shows "emits P (bind (getFiles env root ext) g)"
proof (rule emits_bind_res [where R = "\<lambda>fs. \<forall>f\<in>set fs. prefix root f"])
  show "emits P (getFiles env root ext)" using rd by (rule emits_getFiles)
  show "\<forall>f\<in>set x. prefix root f" if "getFiles env root ext s = (Ok x, s')" for s x s'
    using that by (rule getFiles_result)
  show "emits P (g x)" if "\<forall>f\<in>set x. prefix root f" for x
    using that by (rule g)
qed

lemma emits_html_file:
  assumes "P (Read f)" "\<And>p c. P (Write p c)"
  shows "emits P (html_file cfg env f)"
  unfolding html_file_def Let_def using assms by (intro emits_bind emits_readFile emits_writeFile)

lemma emits_css_file:
  assumes "P (Read f)" "\<And>p c. P (Write p c)"
  shows "emits P (css_file cfg env f)"
  unfolding css_file_def Let_def using assms by (intro emits_bind emits_readFile emits_writeFile)

lemma emits_js_file:
  assumes "P (Read f)" "\<And>p c. P (Write p c)"
  shows "emits P (js_file cfg env f)"
  unfolding js_file_def Let_def using assms by (intro emits_bind emits_readFile emits_writeFile)

lemma emits_source_map:
  assumes "\<And>p c. P (Write p c)"
  shows "emits P (case m of Some sourceMap \<Rightarrow> if d then writeFile env p sourceMap else ret ()
                   | None \<Rightarrow> ret ())"
  using assms by (cases m) (simp_all add: emits_ret emits_writeFile)

lemma emits_scss_file:
  assumes "P (Sass f)" "\<And>p c. P (Write p c)"
  shows "emits P (scss_file cfg env f)"
  unfolding scss_file_def Let_def
  using assms by (intro emits_bind emits_sassCompile emits_writeFile emits_source_map)

lemma emits_ts_file:
  assumes "\<And>r. P (Exec f r)" "\<And>n. P (Out (TsCompiled n))" "\<And>m. P (Err (TsError f m))"
  shows "emits P (ts_file cfg env f)"
  unfolding ts_file_def Let_def
  using assms by (intro emits_try emits_bind emits_execTsc emits_emit emits_throw)

lemma emits_processHTML:
  assumes rd: "\<And>p. prefix (srcDir cfg) p \<Longrightarrow> P (Readdir p)"
    and re: "\<And>p. prefix (srcDir cfg) p \<Longrightarrow> P (Read p)"
    and wr: "\<And>p c. P (Write p c)"
  shows "emits P (processHTML cfg env)"
  unfolding processHTML_def
  by (rule emits_scan [of "srcDir cfg" P, OF rd])
     (auto intro!: emits_for_each emits_html_file re wr)

lemma emits_processStyles:
  assumes rd: "\<And>p. prefix (srcDir cfg) p \<Longrightarrow> P (Readdir p)"
    and re: "\<And>p. prefix (srcDir cfg) p \<Longrightarrow> P (Read p)"
    and sa: "\<And>p. prefix (srcDir cfg) p \<Longrightarrow> P (Sass p)"
    and wr: "\<And>p c. P (Write p c)"
  shows "emits P (processStyles cfg env)"
  unfolding processStyles_def
  apply (rule emits_scan [of "srcDir cfg" P, OF rd], assumption)
  apply (rule emits_scan [of "srcDir cfg" P, OF rd], assumption)
  apply (auto intro!: emits_bind emits_for_each emits_scss_file emits_css_file re sa wr)
  done

lemma emits_processScripts:
  assumes rd: "\<And>p. prefix (srcDir cfg) p \<Longrightarrow> P (Readdir p)"
    and re: "\<And>p. prefix (srcDir cfg) p \<Longrightarrow> P (Read p)"
    and ex: "\<And>p r. prefix (srcDir cfg) p \<Longrightarrow> P (Exec p r)"
    and te: "\<And>p m. prefix (srcDir cfg) p \<Longrightarrow> P (Err (TsError p m))"
    and tc: "\<And>n. P (Out (TsCompiled n))"
    and wr: "\<And>p c. P (Write p c)"
  shows "emits P (processScripts cfg env)"
  unfolding processScripts_def
  apply (rule emits_scan [of "srcDir cfg" P, OF rd], assumption)
  apply (rule emits_scan [of "srcDir cfg" P, OF rd], assumption)
  apply (auto intro!: emits_bind emits_for_each emits_ts_file emits_js_file re ex te tc wr)
  done

lemma emits_processAssets:
  assumes rd: "\<And>p. P (Readdir p)" and mk: "\<And>p. P (Mkdir p)" and cp: "\<And>p q. P (Copy p q)"
    and wr: "\<And>p c. P (Write p c)" and ca: "P (Out CreatingAssets)"
  shows "emits P (processAssets cfg env)"
  unfolding processAssets_def create_assets_def Let_def
  by (intro emits_bind emits_pure emits_copyDirectory emits_ensureDir emits_writeFile
        emits_emit emits_ret rd mk cp wr ca | simp only: if_split | intro conjI impI)+

lemma emits_processData:
  assumes rd: "\<And>p. P (Readdir p)" and mk: "\<And>p. P (Mkdir p)" and cp: "\<And>p q. P (Copy p q)"
    and dm: "P (Out DataMissing)"
  shows "emits P (processData cfg env)"
  unfolding processData_def Let_def
  by (intro emits_bind emits_pure emits_copyDirectory emits_ensureDir
        emits_emit rd mk cp dm | simp only: if_split | intro conjI impI)+

lemma new_eventsI: "trace s' = trace s @ evs \<Longrightarrow> new_events s s' = evs"
  by (simp add: new_events_def)

lemma filter_none: "\<forall>ev\<in>set evs. \<not> P ev \<Longrightarrow> filter P evs = []"
  by (induction evs) auto

lemma emit_result: "emit ev s = (r, s') \<Longrightarrow> r = Ok () \<and> trace s' = trace s @ [ev]"
  by (auto simp: emit_def)

lemma tasks_no_markers:
  assumes "nt \<in> set (tasks cfg env)"
  shows "emits (\<lambda>ev. \<not> is_marker ev) (snd nt)"
proof -
  have "emits (\<lambda>ev. \<not> is_marker ev) (processHTML cfg env)"
    by (rule emits_processHTML) simp_all
  moreover have "emits (\<lambda>ev. \<not> is_marker ev) (processStyles cfg env)"
    by (rule emits_processStyles) simp_all
  moreover have "emits (\<lambda>ev. \<not> is_marker ev) (processScripts cfg env)"
    by (rule emits_processScripts) simp_all
  moreover have "emits (\<lambda>ev. \<not> is_marker ev) (processAssets cfg env)"
    by (rule emits_processAssets) simp_all
  moreover have "emits (\<lambda>ev. \<not> is_marker ev) (processData cfg env)"
    by (rule emits_processData) simp_all
  ultimately show ?thesis using assms by (auto simp: tasks_def)
qed

lemma run_task_markers:
  assumes t: "emits (\<lambda>ev. \<not> is_marker ev) (snd nt)" and r: "run_task nt s = (r, s')"
  shows "\<exists>evs. trace s' = trace s @ evs \<and>
     filter is_marker evs =
       (case r of Ok _ \<Rightarrow> [Out (Processing (fst nt)), Out (Processed (fst nt))]
        | Throw _ \<Rightarrow> [Out (Processing (fst nt))])"
  using r unfolding run_task_def
proof (cases rule: bind_cases)
  case (throw e)
  then show ?thesis using emit_result by blast
next
  case (ok x s1)
  have s1: "trace s1 = trace s @ [Out (Processing (fst nt))]" using emit_result [OF ok(1)] by simp
  from ok(2) show ?thesis
  proof (cases rule: bind_cases)
    case (throw e)
    obtain e1 where e1: "trace s' = trace s1 @ e1" "\<forall>ev\<in>set e1. \<not> is_marker ev"
      using emitsD [OF t throw(1)] by blast
    have "trace s' = trace s @ (Out (Processing (fst nt)) # e1)" using s1 e1 by simp
    moreover have "filter is_marker (Out (Processing (fst nt)) # e1) = [Out (Processing (fst nt))]"
      using filter_none [OF e1(2)] by simp
    ultimately show ?thesis using throw(2) by (intro exI [of _ "Out (Processing (fst nt)) # e1"]) simp
  next
    case (ok y s2)
    obtain e1 where e1: "trace s2 = trace s1 @ e1" "\<forall>ev\<in>set e1. \<not> is_marker ev"
      using emitsD [OF t ok(1)] by blast
    have fin: "r = Ok ()" "trace s' = trace s2 @ [Out (Processed (fst nt))]"
      using emit_result [OF ok(2)] by simp_all
    let ?evs = "Out (Processing (fst nt)) # e1 @ [Out (Processed (fst nt))]"
    have "trace s' = trace s @ ?evs" using s1 e1 fin by simp
    moreover have "filter is_marker ?evs = [Out (Processing (fst nt)), Out (Processed (fst nt))]"
      using filter_none [OF e1(2)] by simp
    ultimately show ?thesis using fin(1) by (intro exI [of _ ?evs]) simp
  qed
qed

lemma tasks_markers:
  assumes "\<forall>nt\<in>set ts. emits (\<lambda>ev. \<not> is_marker ev) (snd nt)"
    and "for_each ts run_task s = (r, s')"
  shows "\<exists>k evs. trace s' = trace s @ evs \<and> filter is_marker evs = take k (markers ts) \<and>
     (case r of Ok _ \<Rightarrow> k = 2 * length ts | Throw _ \<Rightarrow> odd k \<and> k < 2 * length ts)"
  using assms
proof (induction ts arbitrary: s)
  case Nil
  then show ?case by (auto simp: markers_def)
next
  case (Cons nt ts)
  have hd: "emits (\<lambda>ev. \<not> is_marker ev) (snd nt)" using Cons.prems(1) by simp
  have tl: "\<forall>nt\<in>set ts. emits (\<lambda>ev. \<not> is_marker ev) (snd nt)" using Cons.prems(1) by simp
  have m: "markers (nt # ts) = Out (Processing (fst nt)) # Out (Processed (fst nt)) # markers ts"
    by (simp add: markers_def)
  from Cons.prems(2) show ?case
  proof (cases rule: for_each_Cons_cases)
    case (throw e)
    obtain evs where evs: "trace s' = trace s @ evs"
        "filter is_marker evs = [Out (Processing (fst nt))]"
      using run_task_markers [OF hd throw(1)] by auto
    have "filter is_marker evs = take 1 (markers (nt # ts))" using evs(2) m by simp
    then show ?thesis using evs(1) throw(2) by (intro exI [of _ 1] exI [of _ evs]) simp
  next
    case (ok u s1)
    obtain e1 where e1: "trace s1 = trace s @ e1"
        "filter is_marker e1 = [Out (Processing (fst nt)), Out (Processed (fst nt))]"
      using run_task_markers [OF hd ok(1)] by auto
    obtain k e2 where e2: "trace s' = trace s1 @ e2" "filter is_marker e2 = take k (markers ts)"
        "case r of Ok _ \<Rightarrow> k = 2 * length ts | Throw _ \<Rightarrow> odd k \<and> k < 2 * length ts"
      using Cons.IH [OF tl ok(2)] by blast
    have "trace s' = trace s @ (e1 @ e2)" using e1(1) e2(1) by simp
    moreover have "filter is_marker (e1 @ e2) = take (Suc (Suc k)) (markers (nt # ts))"
      using e1(2) e2(2) m by simp
    moreover have "case r of Ok _ \<Rightarrow> Suc (Suc k) = 2 * length (nt # ts)
        | Throw _ \<Rightarrow> odd (Suc (Suc k)) \<and> Suc (Suc k) < 2 * length (nt # ts)"
      using e2(3) by (cases r) simp_all
    ultimately show ?thesis by blast
  qed
qed

lemma markers_tasks: "markers (tasks cfg env) = task_order"
  by (simp add: markers_def tasks_def task_order_def)

lemma ensureDir_trace:
  assumes "ensureDir env p s = (r, s')"
  obtains evs where "trace s' = trace s @ evs" "filter is_marker evs = []"
proof -
  obtain evs where e: "trace s' = trace s @ evs" "\<forall>ev\<in>set evs. \<not> is_marker ev"
    using emitsD [OF emits_ensureDir [of "\<lambda>ev. \<not> is_marker ev" p env] assms] by auto
  then show ?thesis using that filter_none by blast
qed

section \<open>The task markers of a build\<close>

lemma marksD:
  assumes "marks M f" "f s = (r, s')"
  obtains k evs where "trace s' = trace s @ evs" "filter is_marker evs = take k M"
    "case r of Ok _ \<Rightarrow> k = length M | Throw _ \<Rightarrow> (k = 0 \<or> odd k) \<and> k < length M"
  using assms unfolding marks_def by blast

lemma marks_tasks: "marks task_order (for_each (tasks cfg env) run_task)"
  unfolding marks_def
proof (intro allI impI)
  fix s r s' assume a: "for_each (tasks cfg env) run_task s = (r, s')"
  obtain k evs where k: "trace s' = trace s @ evs" "filter is_marker evs = take k task_order"
      "case r of Ok _ \<Rightarrow> k = 2 * length (tasks cfg env)
       | Throw _ \<Rightarrow> odd k \<and> k < 2 * length (tasks cfg env)"
    using tasks_markers [OF _ a] tasks_no_markers [of _ cfg env] markers_tasks [of cfg env]
    by auto
  have "length (tasks cfg env) = 5" "length task_order = 10"
    by (simp_all add: tasks_def task_order_def)
  then have "case r of Ok _ \<Rightarrow> k = length task_order
      | Throw _ \<Rightarrow> (k = 0 \<or> odd k) \<and> k < length task_order"
    using k(3) by (cases r) simp_all
  then show "\<exists>k evs. trace s' = trace s @ evs \<and> filter is_marker evs = take k task_order \<and>
      (case r of Ok _ \<Rightarrow> k = length task_order
       | Throw _ \<Rightarrow> (k = 0 \<or> odd k) \<and> k < length task_order)"
    using k(1,2) by blast
qed

lemma marks_pre:
  assumes f: "emits (\<lambda>ev. \<not> is_marker ev) f" and g: "\<And>x. marks M (g x)" and M: "M \<noteq> []"
  shows "marks M (bind f g)"
  unfolding marks_def
proof (intro allI impI)
  fix s r s' assume b: "bind f g s = (r, s')"
  from b show "\<exists>k evs. trace s' = trace s @ evs \<and> filter is_marker evs = take k M \<and>
      (case r of Ok _ \<Rightarrow> k = length M | Throw _ \<Rightarrow> (k = 0 \<or> odd k) \<and> k < length M)"
  proof (cases rule: bind_cases)
    case (throw e)
    obtain e1 where e1: "trace s' = trace s @ e1" "\<forall>ev\<in>set e1. \<not> is_marker ev"
      using emitsD [OF f throw(1)] by blast
    have "filter is_marker e1 = take 0 M" using filter_none [OF e1(2)] by simp
    then show ?thesis using e1(1) throw(2) M by (intro exI [of _ 0] exI [of _ e1]) simp
  next
    case (ok x s1)
    obtain e1 where e1: "trace s1 = trace s @ e1" "\<forall>ev\<in>set e1. \<not> is_marker ev"
      using emitsD [OF f ok(1)] by blast
    obtain k e2 where e2: "trace s' = trace s1 @ e2" "filter is_marker e2 = take k M"
        "case r of Ok _ \<Rightarrow> k = length M | Throw _ \<Rightarrow> (k = 0 \<or> odd k) \<and> k < length M"
      using marksD [OF g ok(2)] by blast
    have "trace s' = trace s @ (e1 @ e2)" using e1(1) e2(1) by simp
    moreover have "filter is_marker (e1 @ e2) = take k M"
      using filter_none [OF e1(2)] e2(2) by simp
    ultimately show ?thesis using e2(3) by blast
  qed
qed

lemma marks_post:
  assumes f: "marks M f" and g: "\<And>x. emits (\<lambda>ev. \<not> is_marker ev) (g x)"
    and ok: "\<And>x s r s'. g x s = (r, s') \<Longrightarrow> \<exists>y. r = Ok y"
  shows "marks M (bind f g)"
  unfolding marks_def
proof (intro allI impI)
  fix s r s' assume b: "bind f g s = (r, s')"
  from b show "\<exists>k evs. trace s' = trace s @ evs \<and> filter is_marker evs = take k M \<and>
      (case r of Ok _ \<Rightarrow> k = length M | Throw _ \<Rightarrow> (k = 0 \<or> odd k) \<and> k < length M)"
  proof (cases rule: bind_cases)
    case (throw e)
    then show ?thesis using marksD [OF f throw(1)] by (metis result.simps(6))
  next
    case (ok x s1)
    from marksD [OF f ok(1)] obtain k e1 where e1: "trace s1 = trace s @ e1"
        "filter is_marker e1 = take k M"
        "case (Ok x :: 'a result) of Ok _ \<Rightarrow> k = length M
         | Throw _ \<Rightarrow> (k = 0 \<or> odd k) \<and> k < length M"
      by blast
    have kl: "k = length M" using e1(3) by simp
    obtain e2 where e2: "trace s' = trace s1 @ e2" "\<forall>ev\<in>set e2. \<not> is_marker ev"
      using emitsD [OF g ok(2)] by blast
    obtain y where y: "r = Ok y" using assms(3) [OF ok(2)] by blast
    have "trace s' = trace s @ (e1 @ e2)" using e1(1) e2(1) by simp
    moreover have "filter is_marker (e1 @ e2) = take k M"
      using filter_none [OF e2(2)] e1(2) by simp
    ultimately show ?thesis using kl y by (intro exI [of _ k] exI [of _ "e1 @ e2"]) simp
  qed
qed

lemma build_tail_ok:
  assumes "bind (emit (Out BuildDone)) (\<lambda>_. if dev cfg then startDevServer else ret ()) s = (r, s')"
  shows "\<exists>y. r = Ok y"
  using assms
  by (auto simp: bind_def emit_def startDevServer_def ret_def split: if_splits)

lemma build_tail_emits:
  "emits (\<lambda>ev. \<not> is_marker ev)
     (bind (emit (Out BuildDone)) (\<lambda>_. if dev cfg then startDevServer else ret ()))"
  unfolding startDevServer_def
  by (cases "dev cfg") (simp_all add: emits_bind emits_emit emits_ret)

lemma marks_build_body: "marks task_order (build_body cfg env)"
proof -
  have M: "task_order \<noteq> []" by (simp add: task_order_def)
  have tail: "marks task_order
     (bind (for_each (tasks cfg env) run_task)
       (\<lambda>_. bind (emit (Out BuildDone)) (\<lambda>_. if dev cfg then startDevServer else ret ())))"
    by (rule marks_post [OF marks_tasks build_tail_emits build_tail_ok])
  show ?thesis
    unfolding build_body_def
    apply (rule marks_pre [OF emits_ensureDir _ M], simp)
    apply (rule marks_pre [OF emits_ensureDir _ M], simp)
    apply (rule marks_pre [OF emits_ensureDir _ M], simp)
    apply (rule tail)
    done
qed

text \<open>
  The task markers a build prints are an initial part of \<open>task_order\<close>: all of it when the
  build does not fail, and a part that ends inside a task, or the empty part, when it
  fails.
\<close>

lemma build_markers:
  assumes "build cfg env s = (out, s')"
  shows "(out \<noteq> Exit 1 \<longrightarrow> filter is_marker (new_events s s') = task_order)
    \<and> (out = Exit 1 \<longrightarrow>
         (\<exists>k<10. (k = 0 \<or> odd k) \<and> filter is_marker (new_events s s') = take k task_order))"
proof -
  let ?s0 = "s\<lparr>trace := trace s @ [Out BuildStart]\<rparr>"
  obtain r s1 where b: "build_body cfg env ?s0 = (r, s1)" by (cases "build_body cfg env ?s0")
  obtain k evs where k: "trace s1 = trace ?s0 @ evs" "filter is_marker evs = take k task_order"
      "case r of Ok _ \<Rightarrow> k = length task_order
       | Throw _ \<Rightarrow> (k = 0 \<or> odd k) \<and> k < length task_order"
    using marksD [OF marks_build_body b] by blast
  have len: "length task_order = 10" by (simp add: task_order_def)
  show ?thesis
  proof (cases r)
    case (Ok u)
    then have o: "out = (if dev cfg then Watching else Finished)" "s' = s1"
      using assms b by (simp_all add: build_def bind_def emit_def)
    have "new_events s s' = Out BuildStart # evs" using k(1) o(2) by (intro new_eventsI) simp
    then show ?thesis using k(2,3) Ok o(1) len by simp
  next
    case (Throw e)
    then have o: "out = Exit 1" "s' = s1\<lparr>trace := trace s1 @ [Err (BuildError e)]\<rparr>"
      using assms b by (simp_all add: build_def bind_def emit_def)
    have "new_events s s' = Out BuildStart # evs @ [Err (BuildError e)]"
      using k(1) o(2) by (intro new_eventsI) simp
    then have "filter is_marker (new_events s s') = take k task_order" using k(2) by simp
    then show ?thesis using k(3) Throw o(1) len by auto
  qed
qed

section \<open>The scanner\<close>

text \<open>
  Claim C8. For every extension, the scanner called on a root that does not exist returns
  the empty list and raises nothing; called on a root that is a directory it returns
  exactly the paths of the files of the tree whose name ends with the extension, compared
  code unit by code unit (so case-sensitively).
\<close>

theorem getFiles_scans:
  "(lookup (files s) root = None \<longrightarrow> getFiles env root ext s = (Ok [], s))
   \<and> (lookup (files s) root = Some (Dir es) \<longrightarrow>
        (\<exists>found s'. getFiles env root ext s = (Ok found, s')
           \<and> set found = {root @ q | q. file_in es q \<and> suffix ext (last q)}))"
  by (simp add: getFiles_def set_walk endsWith_def)

theorem getFiles_scans_witness:
  "lookup (files demo_state) [js ''proj'', js ''nope''] = None
   \<and> getFiles demo_env [js ''proj'', js ''nope''] (js ''.html'') demo_state = (Ok [], demo_state)
   \<and> lookup (files demo_state) [js ''proj'', js ''src''] = Some (Dir demo_src)
   \<and> (\<exists>found s'. getFiles demo_env [js ''proj'', js ''src''] (js ''.html'') demo_state
          = (Ok found, s')
        \<and> set found
          = {[js ''proj'', js ''src''] @ q | q. file_in demo_src q \<and> suffix (js ''.html'') (last q)})
   \<and> fst (getFiles demo_env [js ''proj'', js ''src''] (js ''.html'') demo_state)
       = Ok [[js ''proj'', js ''src'', js ''index.html''],
             [js ''proj'', js ''src'', js ''pages'', js ''index.html'']]"
proof -
  have a: "lookup (files demo_state) [js ''proj'', js ''nope''] = None" by code_simp
  have b: "lookup (files demo_state) [js ''proj'', js ''src''] = Some (Dir demo_src)"
    by code_simp
  have c: "fst (getFiles demo_env [js ''proj'', js ''src''] (js ''.html'') demo_state)
       = Ok [[js ''proj'', js ''src'', js ''index.html''],
             [js ''proj'', js ''src'', js ''pages'', js ''index.html'']]"
    by code_simp
  show ?thesis
    using a b c
      getFiles_scans [of demo_state "[js ''proj'', js ''nope'']" demo_env "js ''.html''" demo_src]
      getFiles_scans [of demo_state "[js ''proj'', js ''src'']" demo_env "js ''.html''" demo_src]
    by blast
qed

section \<open>A compiler failure aborts the build\<close>

lemma before_assets_not_failed: "before_assets ev \<Longrightarrow> \<not> failed_exec ev"
  by (cases ev rule: failed_exec.cases) simp_all

lemma stops_at_execD:
  assumes "stops_at_exec f" "f s = (r, s')"
  obtains (clean) evs where "trace s' = trace s @ evs" "\<forall>ev\<in>set evs. before_assets ev"
  | (abort) pre fl e where
      "trace s' = trace s @ pre @ [Exec fl (Some e), Err (TsError fl (message e))]"
      "\<forall>ev\<in>set pre. before_assets ev" "r = Throw e"
  using assms unfolding stops_at_exec_def by blast

lemma exec_fatalD:
  assumes "exec_fatal f" "f s = (r, s')"
  obtains (clean) evs where "trace s' = trace s @ evs" "\<forall>ev\<in>set evs. \<not> failed_exec ev"
  | (abort) pre fl e where
      "trace s' = trace s @ pre @ [Exec fl (Some e), Err (TsError fl (message e))]"
      "\<forall>ev\<in>set pre. before_assets ev" "r = Throw e"
  using assms unfolding exec_fatal_def by blast

lemma stops_cleanI:
  "trace s' = trace s @ evs \<Longrightarrow> \<forall>ev\<in>set evs. before_assets ev \<Longrightarrow>
   \<exists>evs. trace s' = trace s @ evs \<and>
     ((\<forall>ev\<in>set evs. before_assets ev) \<or>
      (\<exists>pre file e. evs = pre @ [Exec file (Some e), Err (TsError file (message e))]
         \<and> (\<forall>ev\<in>set pre. before_assets ev) \<and> r = Throw e))"
  by blast

lemma stops_abortI:
  "trace s' = trace s @ pre @ [Exec file (Some e), Err (TsError file (message e))] \<Longrightarrow>
   \<forall>ev\<in>set pre. before_assets ev \<Longrightarrow> r = Throw e \<Longrightarrow>
   \<exists>evs. trace s' = trace s @ evs \<and>
     ((\<forall>ev\<in>set evs. C ev) \<or>
      (\<exists>pre file e. evs = pre @ [Exec file (Some e), Err (TsError file (message e))]
         \<and> (\<forall>ev\<in>set pre. before_assets ev) \<and> r = Throw e))"
  by blast

lemma stops_emits: "emits before_assets f \<Longrightarrow> stops_at_exec f"
  unfolding stops_at_exec_def emits_def by blast

lemma fatal_emits: "emits (\<lambda>ev. \<not> failed_exec ev) f \<Longrightarrow> exec_fatal f"
  unfolding exec_fatal_def emits_def by blast

lemma fatal_stops:
  assumes "stops_at_exec f"
  shows "exec_fatal f"
  unfolding exec_fatal_def
proof (intro allI impI)
  fix s r s' assume a: "f s = (r, s')"
  from assms a show "\<exists>evs. trace s' = trace s @ evs \<and>
     ((\<forall>ev\<in>set evs. \<not> failed_exec ev) \<or>
      (\<exists>pre file e. evs = pre @ [Exec file (Some e), Err (TsError file (message e))]
         \<and> (\<forall>ev\<in>set pre. before_assets ev) \<and> r = Throw e))"
  proof (cases rule: stops_at_execD)
    case (clean evs)
    have "\<forall>ev\<in>set evs. \<not> failed_exec ev"
      using clean(2) before_assets_not_failed by blast
    then show ?thesis using clean(1) by blast
  next
    case (abort pre fl e)
    then show ?thesis by (rule stops_abortI)
  qed
qed

lemma stops_Ok:
  assumes "stops_at_exec f" "f s = (Ok x, s1)"
  obtains e1 where "trace s1 = trace s @ e1" "\<forall>ev\<in>set e1. before_assets ev"
  using assms
proof (cases rule: stops_at_execD)
  case (clean evs)
  then show ?thesis using that by blast
next
  case (abort pre fl e)
  then show ?thesis by simp
qed

lemma fatal_Ok:
  assumes "exec_fatal f" "f s = (Ok x, s1)"
  obtains e1 where "trace s1 = trace s @ e1" "\<forall>ev\<in>set e1. \<not> failed_exec ev"
  using assms
proof (cases rule: exec_fatalD)
  case (clean evs)
  then show ?thesis using that by blast
next
  case (abort pre fl e)
  then show ?thesis by simp
qed

lemma stops_Throw:
  assumes "stops_at_exec f" "f s = (Throw e, s')" "r = Throw e"
  shows "\<exists>evs. trace s' = trace s @ evs \<and>
     ((\<forall>ev\<in>set evs. before_assets ev) \<or>
      (\<exists>pre file e. evs = pre @ [Exec file (Some e), Err (TsError file (message e))]
         \<and> (\<forall>ev\<in>set pre. before_assets ev) \<and> r = Throw e))"
  using assms(1,2)
proof (cases rule: stops_at_execD)
  case (clean evs)
  then show ?thesis by (rule stops_cleanI)
next
  case (abort pre fl e')
  have "r = Throw e'" using assms(3) abort(3) by simp
  with abort(1,2) show ?thesis by (rule stops_abortI)
qed

lemma fatal_Throw:
  assumes "exec_fatal f" "f s = (Throw e, s')" "r = Throw e"
  shows "\<exists>evs. trace s' = trace s @ evs \<and>
     ((\<forall>ev\<in>set evs. \<not> failed_exec ev) \<or>
      (\<exists>pre file e. evs = pre @ [Exec file (Some e), Err (TsError file (message e))]
         \<and> (\<forall>ev\<in>set pre. before_assets ev) \<and> r = Throw e))"
  using assms(1,2)
proof (cases rule: exec_fatalD)
  case (clean evs)
  then show ?thesis by blast
next
  case (abort pre fl e')
  have "r = Throw e'" using assms(3) abort(3) by simp
  with abort(1,2) show ?thesis by (rule stops_abortI)
qed

lemma stops_bind:
  assumes f: "stops_at_exec f" and g: "\<And>x. stops_at_exec (g x)"
  shows "stops_at_exec (bind f g)"
  unfolding stops_at_exec_def
proof (intro allI impI)
  fix s r s' assume b: "bind f g s = (r, s')"
  from b show "\<exists>evs. trace s' = trace s @ evs \<and>
     ((\<forall>ev\<in>set evs. before_assets ev) \<or>
      (\<exists>pre file e. evs = pre @ [Exec file (Some e), Err (TsError file (message e))]
         \<and> (\<forall>ev\<in>set pre. before_assets ev) \<and> r = Throw e))"
  proof (cases rule: bind_cases)
    case (throw e)
    then show ?thesis by (intro stops_Throw [OF f])
  next
    case (ok x s1)
    obtain e1 where e1: "trace s1 = trace s @ e1" "\<forall>ev\<in>set e1. before_assets ev"
      using stops_Ok [OF f ok(1)] by blast
    from g ok(2) show ?thesis
    proof (cases rule: stops_at_execD)
      case (clean e2)
      have "trace s' = trace s @ (e1 @ e2)" using e1(1) clean(1) by simp
      moreover have "\<forall>ev\<in>set (e1 @ e2). before_assets ev" using e1(2) clean(2) by auto
      ultimately show ?thesis by (rule stops_cleanI)
    next
      case (abort pre fl e)
      have "trace s' = trace s @ (e1 @ pre) @ [Exec fl (Some e), Err (TsError fl (message e))]"
        using e1(1) abort(1) by simp
      moreover have "\<forall>ev\<in>set (e1 @ pre). before_assets ev" using e1(2) abort(2) by auto
      ultimately show ?thesis using abort(3) by (rule stops_abortI)
    qed
  qed
qed

lemma fatal_bind:
  assumes f: "stops_at_exec f" and g: "\<And>x. exec_fatal (g x)"
  shows "exec_fatal (bind f g)"
  unfolding exec_fatal_def
proof (intro allI impI)
  fix s r s' assume b: "bind f g s = (r, s')"
  from b show "\<exists>evs. trace s' = trace s @ evs \<and>
     ((\<forall>ev\<in>set evs. \<not> failed_exec ev) \<or>
      (\<exists>pre file e. evs = pre @ [Exec file (Some e), Err (TsError file (message e))]
         \<and> (\<forall>ev\<in>set pre. before_assets ev) \<and> r = Throw e))"
  proof (cases rule: bind_cases)
    case (throw e)
    then show ?thesis by (intro fatal_Throw [OF fatal_stops [OF f]])
  next
    case (ok x s1)
    obtain e1 where e1: "trace s1 = trace s @ e1" "\<forall>ev\<in>set e1. before_assets ev"
      using stops_Ok [OF f ok(1)] by blast
    from g ok(2) show ?thesis
    proof (cases rule: exec_fatalD)
      case (clean e2)
      have "trace s' = trace s @ (e1 @ e2)" using e1(1) clean(1) by simp
      moreover have "\<forall>ev\<in>set (e1 @ e2). \<not> failed_exec ev"
        using e1(2) clean(2) before_assets_not_failed by auto
      ultimately show ?thesis by blast
    next
      case (abort pre fl e)
      have "trace s' = trace s @ (e1 @ pre) @ [Exec fl (Some e), Err (TsError fl (message e))]"
        using e1(1) abort(1) by simp
      moreover have "\<forall>ev\<in>set (e1 @ pre). before_assets ev" using e1(2) abort(2) by auto
      ultimately show ?thesis using abort(3) by (rule stops_abortI)
    qed
  qed
qed

lemma fatal_post:
  assumes f: "exec_fatal f" and g: "\<And>x. emits (\<lambda>ev. \<not> failed_exec ev) (g x)"
  shows "exec_fatal (bind f g)"
  unfolding exec_fatal_def
proof (intro allI impI)
  fix s r s' assume b: "bind f g s = (r, s')"
  from b show "\<exists>evs. trace s' = trace s @ evs \<and>
     ((\<forall>ev\<in>set evs. \<not> failed_exec ev) \<or>
      (\<exists>pre file e. evs = pre @ [Exec file (Some e), Err (TsError file (message e))]
         \<and> (\<forall>ev\<in>set pre. before_assets ev) \<and> r = Throw e))"
  proof (cases rule: bind_cases)
    case (throw e)
    then show ?thesis by (intro fatal_Throw [OF f])
  next
    case (ok x s1)
    obtain e1 where e1: "trace s1 = trace s @ e1" "\<forall>ev\<in>set e1. \<not> failed_exec ev"
      using fatal_Ok [OF f ok(1)] by blast
    obtain e2 where e2: "trace s' = trace s1 @ e2" "\<forall>ev\<in>set e2. \<not> failed_exec ev"
      using emitsD [OF g ok(2)] by blast
    have "trace s' = trace s @ (e1 @ e2)" using e1(1) e2(1) by simp
    moreover have "\<forall>ev\<in>set (e1 @ e2). \<not> failed_exec ev" using e1(2) e2(2) by auto
    ultimately show ?thesis by blast
  qed
qed

lemma for_each_Cons_bind: "for_each (x # xs) body = bind (body x) (\<lambda>_. for_each xs body)"
  by (rule ext) (simp add: bind_def split: prod.splits result.splits)

lemma stops_for_each:
  "(\<And>x. x \<in> set xs \<Longrightarrow> stops_at_exec (body x)) \<Longrightarrow> stops_at_exec (for_each xs body)"
proof (induction xs)
  case Nil
  have "for_each [] body = ret ()" by (rule ext) (simp add: ret_def)
  then show ?case by (simp add: stops_emits emits_ret)
next
  case (Cons x xs)
  show ?case unfolding for_each_Cons_bind using Cons by (intro stops_bind) simp_all
qed

lemma stops_ts_file: "stops_at_exec (ts_file cfg env f)"
  unfolding stops_at_exec_def
proof (intro allI impI)
  fix s r s' assume a: "ts_file cfg env f s = (r, s')"
  show "\<exists>evs. trace s' = trace s @ evs \<and>
     ((\<forall>ev\<in>set evs. before_assets ev) \<or>
      (\<exists>pre file e. evs = pre @ [Exec file (Some e), Err (TsError file (message e))]
         \<and> (\<forall>ev\<in>set pre. before_assets ev) \<and> r = Throw e))"
  proof (cases "tsc env (files s) f (distDir cfg)")
    case (Inr t)
    then have "trace s' = trace s @ [Exec f None, Out (TsCompiled (basename_ext f (js ''.ts'') @ js ''.js''))]"
      using a by (auto simp: ts_file_def try_catch_def bind_def execTsc_def emit_def)
    moreover have "\<forall>ev\<in>set [Exec f None, Out (TsCompiled (basename_ext f (js ''.ts'') @ js ''.js''))].
        before_assets ev" by simp
    ultimately show ?thesis by (rule stops_cleanI)
  next
    case (Inl e)
    then have "trace s' = trace s @ [] @ [Exec f (Some e), Err (TsError f (message e))]"
        "r = Throw e"
      using a by (auto simp: ts_file_def try_catch_def bind_def execTsc_def emit_def throw_def)
    then show ?thesis by (intro stops_abortI [where pre = "[]"]) simp_all
  qed
qed

lemma stops_processScripts: "stops_at_exec (processScripts cfg env)"
  unfolding processScripts_def
proof (intro stops_bind stops_for_each stops_ts_file)
  show "stops_at_exec (getFiles env (srcDir cfg) (js ''.ts''))"
    by (intro stops_emits emits_getFiles) simp
  show "stops_at_exec (getFiles env (srcDir cfg) (js ''.js''))"
    by (intro stops_emits emits_getFiles) simp
  show "stops_at_exec (js_file cfg env x)" for x
    by (intro stops_emits emits_js_file) simp_all
qed

lemma stops_run_task:
  assumes "stops_at_exec t" "n \<noteq> ''assets''" "n \<noteq> ''data''"
  shows "stops_at_exec (run_task (n, t))"
  unfolding run_task_def fst_conv snd_conv
  apply (rule stops_bind [OF stops_emits [OF emits_emit]])
   apply (simp add: assms)
  apply (rule stops_bind [OF assms(1)])
  apply (rule stops_emits [OF emits_emit])
  apply (simp add: assms)
  done

lemma fatal_tail: "emits (\<lambda>ev. \<not> failed_exec ev) (for_each
     [(''assets'', processAssets cfg env), (''data'', processData cfg env)] run_task)"
proof (rule emits_for_each)
  fix x assume "x \<in> set [(''assets'', processAssets cfg env), (''data'', processData cfg env)]"
  then consider "x = (''assets'', processAssets cfg env)" | "x = (''data'', processData cfg env)"
    by auto
  then show "emits (\<lambda>ev. \<not> failed_exec ev) (run_task x)"
  proof cases
    case 1
    show ?thesis unfolding 1 run_task_def fst_conv snd_conv
      by (intro emits_bind emits_emit emits_processAssets) simp_all
  next
    case 2
    show ?thesis unfolding 2 run_task_def fst_conv snd_conv
      by (intro emits_bind emits_emit emits_processData) simp_all
  qed
qed

lemma fatal_tasks: "exec_fatal (for_each (tasks cfg env) run_task)"
proof -
  have h: "stops_at_exec (run_task (''html'', processHTML cfg env))"
    by (intro stops_run_task stops_emits emits_processHTML) simp_all
  have st: "stops_at_exec (run_task (''styles'', processStyles cfg env))"
    by (intro stops_run_task stops_emits emits_processStyles) simp_all
  have sc: "stops_at_exec (run_task (''scripts'', processScripts cfg env))"
    by (intro stops_run_task stops_processScripts) simp_all
  show ?thesis
    unfolding tasks_def for_each_Cons_bind [of "(''html'', processHTML cfg env)"]
      for_each_Cons_bind [of "(''styles'', processStyles cfg env)"]
      for_each_Cons_bind [of "(''scripts'', processScripts cfg env)"]
    apply (rule fatal_bind [OF h])
    apply (rule fatal_bind [OF st])
    apply (rule fatal_post [OF fatal_stops [OF sc]])
    apply (rule fatal_tail)
    done
qed

lemma fatal_build_tail:
  "emits (\<lambda>ev. \<not> failed_exec ev)
     (bind (emit (Out BuildDone)) (\<lambda>_. if dev cfg then startDevServer else ret ()))"
  unfolding startDevServer_def
  by (cases "dev cfg") (simp_all add: emits_bind emits_emit emits_ret)

lemma fatal_build_body: "exec_fatal (build_body cfg env)"
  unfolding build_body_def
  apply (rule fatal_bind [OF stops_emits [OF emits_ensureDir]], simp)
  apply (rule fatal_bind [OF stops_emits [OF emits_ensureDir]], simp)
  apply (rule fatal_bind [OF stops_emits [OF emits_ensureDir]], simp)
  apply (rule fatal_post [OF fatal_tasks])
  apply (rule fatal_build_tail)
  done

text \<open>
  Claim C1. In every build in which the script compiler, run on a file, exits non-zero,
  the whole build aborts: the process exits with status 1; the file and the compiler's
  message are printed, and then the error itself; nothing else follows the failed
  compiler call, so no later task and no copy of a plain script writes anything. All
  that happened before belongs to the stages up to the script stage: the asset and data
  tasks have not started.
\<close>

theorem build_aborts_on_compile_error:
  assumes "build cfg env s = (out, s')"
    and "Exec f (Some e) \<in> set (new_events s s')"
  shows "out = Exit 1
    \<and> (\<exists>pre. new_events s s'
          = pre @ [Exec f (Some e), Err (TsError f (message e)), Err (BuildError e)]
        \<and> (\<forall>ev\<in>set pre. before_assets ev))"
proof -
  let ?s0 = "s\<lparr>trace := trace s @ [Out BuildStart]\<rparr>"
  obtain r s1 where b: "build_body cfg env ?s0 = (r, s1)" by (cases "build_body cfg env ?s0")
  from fatal_build_body b show ?thesis
  proof (cases rule: exec_fatalD)
    case (clean evs)
    have n: "new_events ?s0 s1 = evs" using clean(1) by (rule new_eventsI)
    have "\<not> failed_exec ev" if "ev \<in> set (new_events s s')" for ev
    proof (cases r)
      case (Ok x)
      then have "s' = s1" using assms(1) b by (simp add: build_def bind_def emit_def)
      then have "new_events s s' = Out BuildStart # evs" using clean(1) by (intro new_eventsI) simp
      then show ?thesis using that clean(2) by auto
    next
      case (Throw e')
      then have "s' = s1\<lparr>trace := trace s1 @ [Err (BuildError e')]\<rparr>"
        using assms(1) b by (simp add: build_def bind_def emit_def)
      then have "new_events s s' = Out BuildStart # evs @ [Err (BuildError e')]"
        using clean(1) by (intro new_eventsI) simp
      then show ?thesis using that clean(2) by auto
    qed
    then show ?thesis using assms(2) by force
  next
    case (abort pre fl e')
    have n: "new_events ?s0 s1 = pre @ [Exec fl (Some e'), Err (TsError fl (message e'))]"
      using abort(1) by (rule new_eventsI)
    have o: "out = Exit 1" "s' = s1\<lparr>trace := trace s1 @ [Err (BuildError e')]\<rparr>"
      using assms(1) b abort(3) by (simp_all add: build_def bind_def emit_def)
    have ne: "new_events s s'
        = (Out BuildStart # pre) @ [Exec fl (Some e'), Err (TsError fl (message e')), Err (BuildError e')]"
      using abort(1) o(2) by (intro new_eventsI) simp
    have clean: "\<forall>ev\<in>set (Out BuildStart # pre). before_assets ev" using abort(2) by simp
    have "Exec f (Some e) \<notin> set (Out BuildStart # pre)"
      using clean by (metis before_assets.simps(1))
    then have "fl = f \<and> e' = e" using assms(2) ne by auto
    then show ?thesis using ne clean o(1) by blast
  qed
qed

theorem build_aborts_on_compile_error_witness:
  "Exec [js ''proj'', js ''src'', js ''script.ts''] (Some (Error EFAILED (js ''TS2322'')))
     \<in> set (new_events demo_state (snd (build demo_config failing_env demo_state)))
   \<and> fst (build demo_config failing_env demo_state) = Exit 1
   \<and> (\<exists>pre. new_events demo_state (snd (build demo_config failing_env demo_state))
          = pre @ [Exec [js ''proj'', js ''src'', js ''script.ts'']
                     (Some (Error EFAILED (js ''TS2322''))),
                   Err (TsError [js ''proj'', js ''src'', js ''script.ts'']
                     (message (Error EFAILED (js ''TS2322'')))),
                   Err (BuildError (Error EFAILED (js ''TS2322'')))]
        \<and> (\<forall>ev\<in>set pre. before_assets ev))"
proof -
  have h: "Exec [js ''proj'', js ''src'', js ''script.ts''] (Some (Error EFAILED (js ''TS2322'')))
     \<in> set (new_events demo_state (snd (build demo_config failing_env demo_state)))"
    by code_simp
  show ?thesis
    using h build_aborts_on_compile_error [OF prod.collapse [symmetric] h] by blast
qed

section \<open>Failures in watch mode\<close>

lemma quiet_change_task: "emits (\<lambda>ev. \<not> is_change ev) (change_task cfg env p)"
proof -
  let ?P = "\<lambda>ev. \<not> is_change ev"
  have h: "emits ?P (processHTML cfg env)" by (rule emits_processHTML) simp_all
  have st: "emits ?P (processStyles cfg env)" by (rule emits_processStyles) simp_all
  have sc: "emits ?P (processScripts cfg env)" by (rule emits_processScripts) simp_all
  have a: "emits ?P (processAssets cfg env)" by (rule emits_processAssets) simp_all
  have d: "emits ?P (processData cfg env)" by (rule emits_processData) simp_all
  have e: "emits ?P (emit (Out m))" if "\<forall>q. m \<noteq> FileChanged q" for m
    using that by (intro emits_emit) (cases m; simp)
  show ?thesis
    unfolding change_task_def Let_def
    by (intro emits_bind e h st sc a d emits_ret | simp only: if_split | intro conjI impI | simp)+
qed

lemma on_change_result:
  assumes "on_change cfg env p s = (r, s')"
  shows "r = Ok () \<and> (\<exists>evs. trace s' = trace s @ Out (FileChanged p) # evs
                          \<and> (\<forall>ev\<in>set evs. \<not> is_change ev))"
proof -
  let ?s1 = "s\<lparr>trace := trace s @ [Out (FileChanged p)]\<rparr>"
  have t: "try_catch (change_task cfg env p)
             (\<lambda>error. emit (Err (ChangeError (message error)))) ?s1 = (r, s')"
    using assms by (simp add: on_change_def bind_def emit_def)
  from t show ?thesis
  proof (cases rule: try_catch_cases)
    case (ok x)
    obtain evs where "trace s' = trace ?s1 @ evs" "\<forall>ev\<in>set evs. \<not> is_change ev"
      using emitsD [OF quiet_change_task ok(1)] by blast
    then show ?thesis using ok(2) by simp
  next
    case (caught e s1)
    obtain evs where evs: "trace s1 = trace ?s1 @ evs" "\<forall>ev\<in>set evs. \<not> is_change ev"
      using emitsD [OF quiet_change_task caught(1)] by blast
    have "r = Ok ()" "trace s' = trace s1 @ [Err (ChangeError (message e))]"
      using emit_result [OF caught(2)] by simp_all
    then show ?thesis using evs by simp
  qed
qed

lemma on_change_caught:
  assumes "change_task cfg env p (s\<lparr>trace := trace s @ [Out (FileChanged p)]\<rparr>) = (Throw e, s1)"
  shows "on_change cfg env p s = (Ok (), s1\<lparr>trace := trace s1 @ [Err (ChangeError (message e))]\<rparr>)"
  using assms by (simp add: on_change_def bind_def emit_def try_catch_def)

lemma handlers_result:
  assumes "for_each ps (on_change cfg env) s = (r, s')"
  shows "r = Ok () \<and> (\<exists>evs. trace s' = trace s @ evs
           \<and> filter is_change evs = map (\<lambda>p. Out (FileChanged p)) ps)"
  using assms
proof (induction ps arbitrary: s)
  case Nil
  then show ?case by simp
next
  case (Cons p ps)
  from Cons.prems show ?case
  proof (cases rule: for_each_Cons_cases)
    case (ok u s1)
    obtain evs where evs: "trace s1 = trace s @ Out (FileChanged p) # evs"
        "\<forall>ev\<in>set evs. \<not> is_change ev"
      using on_change_result [OF ok(1)] by blast
    obtain evs' where evs': "r = Ok ()" "trace s' = trace s1 @ evs'"
        "filter is_change evs' = map (\<lambda>p. Out (FileChanged p)) ps"
      using Cons.IH [OF ok(2)] by blast
    have "filter is_change (Out (FileChanged p) # evs @ evs')
            = map (\<lambda>p. Out (FileChanged p)) (p # ps)"
      using evs(2) evs'(3) by (simp add: filter_none)
    then show ?thesis using evs(1) evs'(1,2) by auto
  next
    case (throw e)
    then show ?thesis using on_change_result [OF throw(1)] by simp
  qed
qed

text \<open>
  C4. In watch mode the handler of a change event never lets a failure out: whatever
  fails while the task of the event runs is caught and logged (the handler has printed
  the path of the changed file first, and prints the message of the error last), the
  handler returns normally, and the watcher goes on to the next event. So for every
  sequence of change events the watcher handles every one of them, in their order, and
  is still in place after the last; nothing in a handler ends the process.
\<close>

theorem watch_survives_failures:
  "fst (watch cfg env events s) = Ok ()
   \<and> filter is_change (new_events s (snd (watch cfg env events s)))
       = map (\<lambda>p. Out (FileChanged p)) events
   \<and> fst (on_change cfg env filePath s) = Ok ()
   \<and> (change_task cfg env filePath (s\<lparr>trace := trace s @ [Out (FileChanged filePath)]\<rparr>)
        = (Throw e, s1)
      \<longrightarrow> on_change cfg env filePath s
            = (Ok (), s1\<lparr>trace := trace s1 @ [Err (ChangeError (message e))]\<rparr>)
          \<and> (\<exists>evs. trace s1 = trace s @ Out (FileChanged filePath) # evs))"
proof -
  obtain r s' where w: "for_each events (on_change cfg env) s = (r, s')"
    by (cases "for_each events (on_change cfg env) s")
  obtain evs where evs: "r = Ok ()" "trace s' = trace s @ evs"
      "filter is_change evs = map (\<lambda>p. Out (FileChanged p)) events"
    using handlers_result [OF w] by blast
  have 1: "fst (watch cfg env events s) = Ok ()" using w evs(1) by (simp add: watch_def)
  have 2: "filter is_change (new_events s (snd (watch cfg env events s)))
             = map (\<lambda>p. Out (FileChanged p)) events"
    using w evs(3) new_eventsI [OF evs(2)] by (simp add: watch_def)
  obtain r1 s1' where o: "on_change cfg env filePath s = (r1, s1')"
    by (cases "on_change cfg env filePath s")
  have 3: "fst (on_change cfg env filePath s) = Ok ()"
    using on_change_result [OF o] o by simp
  have 4: "on_change cfg env filePath s
             = (Ok (), s1\<lparr>trace := trace s1 @ [Err (ChangeError (message e))]\<rparr>)
           \<and> (\<exists>evs. trace s1 = trace s @ Out (FileChanged filePath) # evs)"
    if c: "change_task cfg env filePath (s\<lparr>trace := trace s @ [Out (FileChanged filePath)]\<rparr>)
             = (Throw e, s1)"
  proof -
    obtain evs where "trace s1 = trace (s\<lparr>trace := trace s @ [Out (FileChanged filePath)]\<rparr>) @ evs"
      using emitsD [OF quiet_change_task c] by blast
    then show ?thesis using on_change_caught [OF c] by simp
  qed
  show ?thesis using 1 2 3 4 by blast
qed

theorem watch_survives_failures_witness:
  "fst (change_task demo_config failing_env [js ''proj'', js ''src'', js ''script.ts'']
          (watched_state\<lparr>trace := trace watched_state
             @ [Out (FileChanged [js ''proj'', js ''src'', js ''script.ts''])]\<rparr>))
     = Throw (Error EFAILED (js ''TS2322''))
   \<and> fst (on_change demo_config failing_env [js ''proj'', js ''src'', js ''script.ts'']
            watched_state) = Ok ()
   \<and> last (trace (snd (on_change demo_config failing_env
            [js ''proj'', js ''src'', js ''script.ts''] watched_state)))
       = Err (ChangeError (js ''TS2322''))
   \<and> trace (snd (watch demo_config failing_env
        [[js ''proj'', js ''src'', js ''script.ts''],
         [js ''proj'', js ''src'', js ''index.html'']] watched_state))
     = [Out (FileChanged [js ''proj'', js ''src'', js ''script.ts'']),
        Readdir [js ''proj'', js ''src''],
        Readdir [js ''proj'', js ''src'', js ''pages''],
        Readdir [js ''proj'', js ''src''],
        Readdir [js ''proj'', js ''src'', js ''pages''],
        Exec [js ''proj'', js ''src'', js ''script.ts'']
          (Some (Error EFAILED (js ''TS2322''))),
        Err (TsError [js ''proj'', js ''src'', js ''script.ts''] (js ''TS2322'')),
        Err (ChangeError (js ''TS2322'')),
        Out (FileChanged [js ''proj'', js ''src'', js ''index.html'']),
        Readdir [js ''proj'', js ''src''],
        Readdir [js ''proj'', js ''src'', js ''pages''],
        Read [js ''proj'', js ''src'', js ''index.html''],
        Write [js ''proj'', js ''dist'', js ''index.html''] (js ''<p> one </p>''),
        Read [js ''proj'', js ''src'', js ''pages'', js ''index.html''],
        Write [js ''proj'', js ''dist'', js ''index.html''] (js ''<p> two </p>''),
        Out HtmlUpdated,
        Out ReloadHint]"
proof -
  let ?p = "[js ''proj'', js ''src'', js ''script.ts'']"
  let ?s = "watched_state\<lparr>trace := trace watched_state @ [Out (FileChanged ?p)]\<rparr>"
  let ?e = "Error EFAILED (js ''TS2322'')"
  have a: "fst (change_task demo_config failing_env ?p ?s) = Throw ?e" by code_simp
  then have b: "change_task demo_config failing_env ?p ?s
                  = (Throw ?e, snd (change_task demo_config failing_env ?p ?s))"
    by (metis prod.collapse)
  have c: "on_change demo_config failing_env ?p watched_state
             = (Ok (), (snd (change_task demo_config failing_env ?p ?s))
                 \<lparr>trace := trace (snd (change_task demo_config failing_env ?p ?s))
                    @ [Err (ChangeError (message ?e))]\<rparr>)"
    using watch_survives_failures [where cfg = demo_config and env = failing_env
        and filePath = ?p and s = watched_state and e = ?e
        and ?s1.0 = "snd (change_task demo_config failing_env ?p ?s)"] b
    by blast
  have d: "trace (snd (watch demo_config failing_env
        [[js ''proj'', js ''src'', js ''script.ts''],
         [js ''proj'', js ''src'', js ''index.html'']] watched_state))
     = [Out (FileChanged [js ''proj'', js ''src'', js ''script.ts'']),
        Readdir [js ''proj'', js ''src''],
        Readdir [js ''proj'', js ''src'', js ''pages''],
        Readdir [js ''proj'', js ''src''],
        Readdir [js ''proj'', js ''src'', js ''pages''],
        Exec [js ''proj'', js ''src'', js ''script.ts'']
          (Some (Error EFAILED (js ''TS2322''))),
        Err (TsError [js ''proj'', js ''src'', js ''script.ts''] (js ''TS2322'')),
        Err (ChangeError (js ''TS2322'')),
        Out (FileChanged [js ''proj'', js ''src'', js ''index.html'']),
        Readdir [js ''proj'', js ''src''],
        Readdir [js ''proj'', js ''src'', js ''pages''],
        Read [js ''proj'', js ''src'', js ''index.html''],
        Write [js ''proj'', js ''dist'', js ''index.html''] (js ''<p> one </p>''),
        Read [js ''proj'', js ''src'', js ''pages'', js ''index.html''],
        Write [js ''proj'', js ''dist'', js ''index.html''] (js ''<p> two </p>''),
        Out HtmlUpdated,
        Out ReloadHint]"
    by code_simp
  have e: "fst (on_change demo_config failing_env ?p watched_state) = Ok ()"
    unfolding c by (rule fst_conv)
  have f: "last (trace (snd (on_change demo_config failing_env ?p watched_state)))
             = Err (ChangeError (js ''TS2322''))"
    unfolding c by simp
  show ?thesis by (intro conjI a e f d)
qed

section \<open>The change handler classifies by extension first\<close>









section \<open>Writing into the file tree\<close>

lemma map_of_upd_same: "map_of es x = Some n \<Longrightarrow> map_of (upd x n' es) x = Some n'"
  by (induction x n' es rule: upd.induct) (auto split: if_splits)

lemma map_of_upd_other: "y \<noteq> x \<Longrightarrow> map_of (upd x n' es) y = map_of es y"
  by (induction x n' es rule: upd.induct) auto

lemma map_of_snoc_other: "y \<noteq> x \<Longrightarrow> map_of (es @ [(x, n)]) y = map_of es y"
  by (induction es) auto

lemma map_of_snoc_same: "map_of es x = None \<Longrightarrow> map_of (es @ [(x, n)]) x = Some n"
  by (induction es) (auto split: if_splits)

lemma lookup_put_same: "put_file p c t = Inr t' \<Longrightarrow> lookup t' p = Some (File c)"
proof (induction p c t arbitrary: t' rule: put_file.induct)
  case (1 c t)
  then show ?case by (cases t) auto
next
  case (2 x xs c d)
  then show ?case by simp
next
  case (3 x xs c es)
  show ?case
  proof (cases "map_of es x")
    case None
    then show ?thesis using 3(2) by (auto simp: map_of_snoc_same simp del: map_of_append split: if_splits)
  next
    case (Some n)
    then obtain n' where n': "put_file xs c n = Inr n'" "t' = Dir (upd x n' es)"
      using 3(2) by (auto split: sum.splits)
    have "lookup n' xs = Some (File c)" using 3(1) [OF Some n'(1)] .
    then show ?thesis using n'(2) Some by (simp add: map_of_upd_same)
  qed
qed

lemma lookup_put_frame:
  "put_file p c t = Inr t' \<Longrightarrow> \<not> prefix q p \<Longrightarrow> lookup t' q = lookup t q"
proof (induction p c t arbitrary: t' q rule: put_file.induct)
  case (1 c t)
  then show ?case by (cases t; cases q) auto
next
  case (2 x xs c d)
  then show ?case by simp
next
  case (3 x xs c es)
  obtain y ys where q: "q = y # ys" using 3(3) by (cases q) auto
  show ?case
  proof (cases "map_of es x")
    case None
    then have t': "xs = []" "t' = Dir (es @ [(x, File c)])"
      using 3(2) by (auto split: if_splits)
    show ?thesis
    proof (cases "y = x")
      case False
      then show ?thesis using q t' by (simp add: map_of_snoc_other del: map_of_append)
    next
      case True
      then have "ys \<noteq> []" using 3(3) q t' by auto
      then obtain z zs where "ys = z # zs" by (cases ys) auto
      then show ?thesis using q t' True None by (simp add: map_of_snoc_same del: map_of_append)
    qed
  next
    case (Some n)
    then obtain n' where n': "put_file xs c n = Inr n'" "t' = Dir (upd x n' es)"
      using 3(2) by (auto split: sum.splits)
    show ?thesis
    proof (cases "y = x")
      case False
      then show ?thesis using q n'(2) by (simp add: map_of_upd_other)
    next
      case True
      then have "\<not> prefix ys xs" using 3(3) q by simp
      then have "lookup n' ys = lookup n ys" using 3(1) [OF Some n'(1)] by blast
      then show ?thesis using q n'(2) True Some by (simp add: map_of_upd_same)
    qed
  qed
qed

lemma put_through_dir:
  "put_file (q @ x # xs) c t = Inr t' \<Longrightarrow>
   (\<exists>es. lookup t q = Some (Dir es)) \<and> (\<exists>es. lookup t' q = Some (Dir es))"
proof (induction q arbitrary: t t')
  case Nil
  then show ?case by (cases t) (auto split: option.splits sum.splits if_splits)
next
  case (Cons y ys)
  then obtain es where t: "t = Dir es" by (cases t) auto
  then obtain n where n: "map_of es y = Some n"
    using Cons.prems by (cases "map_of es y") (auto split: if_splits)
  then obtain n' where n': "put_file (ys @ x # xs) c n = Inr n'" "t' = Dir (upd y n' es)"
    using Cons.prems t by (auto split: sum.splits)
  show ?case using Cons.IH [OF n'(1)] t n n'(2) by (simp add: map_of_upd_same)
qed

lemma lookup_put_file_iff:
  assumes "put_file p c t = Inr t'" "q \<noteq> p"
  shows "lookup t' q = Some (File d) \<longleftrightarrow> lookup t q = Some (File d)"
proof (cases "prefix q p")
  case False
  then show ?thesis using lookup_put_frame [OF assms(1)] by simp
next
  case True
  then obtain zs where "p = q @ zs" by (auto simp: prefix_def)
  then obtain x xs where "p = q @ x # xs" using assms(2) by (cases zs) auto
  then show ?thesis using put_through_dir [of q x xs c t t'] assms(1) by auto
qed

section \<open>A change of a markup file\<close>

lemma preservesI:
  assumes "\<And>s r s' q. f s = (r, s') \<Longrightarrow> K q \<Longrightarrow> lookup (files s') q = lookup (files s) q"
  shows "preserves K f"
  using assms unfolding preserves_def by blast

lemma preservesD:
  assumes "preserves K f" "f s = (r, s')" "K q"
  shows "lookup (files s') q = lookup (files s) q"
  using assms unfolding preserves_def by blast

lemma preserves_ret: "preserves K (ret x)"
  by (rule preservesI) (simp add: ret_def)


lemma preserves_readFile: "preserves K (readFile env p)"
  by (rule preservesI) (auto simp: readFile_def split: option.splits node.splits)


lemma preserves_writeFile:
  assumes "\<And>q. K q \<Longrightarrow> \<not> prefix q p"
  shows "preserves K (writeFile env p c)"
proof (rule preservesI)
  fix s r s' q assume w: "writeFile env p c s = (r, s')" and k: "K q"
  show "lookup (files s') q = lookup (files s) q"
  proof (cases "put_file p (utf8_encode c) (files s)")
    case (Inl e)
    then show ?thesis using w by (simp add: writeFile_def)
  next
    case (Inr t)
    then have "files s' = t" using w by (auto simp: writeFile_def)
    then show ?thesis using lookup_put_frame [OF Inr assms [OF k]] by simp
  qed
qed

lemma preserves_bind_res:
  assumes f: "preserves K f"
    and r: "\<And>s x s'. f s = (Ok x, s') \<Longrightarrow> R x"
    and g: "\<And>x. R x \<Longrightarrow> preserves K (g x)"
  shows "preserves K (bind f g)"
proof (rule preservesI)
  fix s r' s' q assume b: "bind f g s = (r', s')" and k: "K q"
  from b show "lookup (files s') q = lookup (files s) q"
  proof (cases rule: bind_cases)
    case (ok x s1)
    have "lookup (files s') q = lookup (files s1) q"
      by (rule preservesD [OF g [OF r [OF ok(1)]] ok(2) k])
    also have "\<dots> = lookup (files s) q" by (rule preservesD [OF f ok(1) k])
    finally show ?thesis .
  next
    case (throw e)
    show ?thesis by (rule preservesD [OF f throw(1) k])
  qed
qed

lemma preserves_bind: "preserves K f \<Longrightarrow> (\<And>x. preserves K (g x)) \<Longrightarrow> preserves K (bind f g)"
  by (rule preserves_bind_res [where R = "\<lambda>_. True"]) simp_all


lemma preserves_for_each:
  assumes "\<And>x. x \<in> set xs \<Longrightarrow> preserves K (body x)"
  shows "preserves K (for_each xs body)"
  using assms
proof (induction xs)
  case Nil
  show ?case by (rule preservesI) simp
next
  case (Cons x xs)
  have "preserves K (bind (body x) (\<lambda>_. for_each xs body))"
    by (intro preserves_bind Cons.prems Cons.IH) simp_all
  then show ?case by (simp only: for_each_Cons_bind)
qed



lemma preserves_html_file:
  assumes "\<And>q. K q \<Longrightarrow> \<not> prefix q (distDir cfg @ [basename f])"
  shows "preserves K (html_file cfg env f)"
  unfolding html_file_def Let_def
  by (intro preserves_bind preserves_readFile preserves_writeFile assms)




lemma on_change_html:
  assumes "extname filePath = js ''.html''"
  shows "on_change cfg env filePath
      = bind (emit (Out (FileChanged filePath))) (\<lambda>_.
          try_catch
            (bind (bind (processHTML cfg env) (\<lambda>_. emit (Out HtmlUpdated)))
               (\<lambda>_. emit (Out ReloadHint)))
            (\<lambda>error. emit (Err (ChangeError (message error)))))"
  unfolding on_change_def change_task_def Let_def using assms by simp






section \<open>Output no longer than the source\<close>

lemma length_unit_utf8: "length (unit_utf8 c) = unit_bytes c"
  by (simp add: unit_utf8_def unit_bytes_def)

lemma length_utf8_encode: "length (utf8_encode s) = utf8_length s"
  by (induction s rule: utf8_length.induct) (simp_all add: length_unit_utf8 pair_utf8_def Let_def)

lemma read_write_Ok:
  assumes "bind (readFile env f) (\<lambda>content. writeFile env p (m content)) s = (Ok u, s')"
  shows "\<exists>src. lookup (files s) f = Some (File src)
           \<and> lookup (files s') p = Some (File (utf8_encode (m (utf8_decode src))))"
  using assms
proof (cases rule: bind_cases)
  case (ok c s0)
  obtain src where r: "lookup (files s) f = Some (File src)" "c = utf8_decode src"
      "files s0 = files s"
    using ok(1) by (auto simp: readFile_def split: option.splits node.splits)
  obtain t where t: "put_file p (utf8_encode (m c)) (files s0) = Inr t" "files s' = t"
    using ok(2) by (auto simp: writeFile_def split: sum.splits)
  have "lookup t p = Some (File (utf8_encode (m c)))" using t(1) by (rule lookup_put_same)
  then show ?thesis using r t(2) by auto
next
  case (throw e)
  then show ?thesis by simp
qed

lemma minified_tasks:
  assumes "\<not> dev cfg"
  shows "html_file cfg env f
           = bind (readFile env f) (\<lambda>content.
               writeFile env (distDir cfg @ [basename f]) (minifyHTML content))"
    and "css_file cfg env f
           = bind (readFile env f) (\<lambda>content.
               writeFile env (distDir cfg @ [basename f]) (minifyCSS content))"
    and "js_file cfg env f
           = bind (readFile env f) (\<lambda>content.
               writeFile env (distDir cfg @ [basename f]) (minifyJS content))"
  using assms by (simp_all add: html_file_def css_file_def js_file_def)

text \<open>
  C6, as stated, fails: a source file that is not well-formed UTF-8 is read with a
  replacement character of three bytes for every byte that cannot be decoded, so the
  output can be longer than the source file. A markup file of the four bytes
  \<^verbatim>\<open>FF FF 20 20\<close> gives an output of six bytes in a production build.
\<close>

theorem minify_never_longer_counterexample:
  "\<not> dev demo_config
   \<and> lookup (files garbled_state) [js ''proj'', js ''src'', js ''bad.html'']
       = Some (File [0xFF, 0xFF, 0x20, 0x20])
   \<and> fst (processHTML demo_config demo_env garbled_state) = Ok ()
   \<and> lookup (files (snd (processHTML demo_config demo_env garbled_state)))
         [js ''proj'', js ''dist'', js ''bad.html'']
       = Some (File [0xEF, 0xBF, 0xBD, 0xEF, 0xBF, 0xBD])"
  by code_simp

text \<open>
  C6, amended. In a production build (the development flag is off) the markup task, the
  stylesheet task for a plain stylesheet and the script task for a plain script write,
  for a source file they have read, the UTF-8 encoding of the minified text of the file.
  That output is never longer than the UTF-8 encoding of the text read; so it is never
  longer than the source file when the source file is well-formed UTF-8. This holds for
  every source, with or without removable white space or comments.
\<close>

theorem minify_never_longer:
  assumes "\<not> dev cfg"
    and "task = html_file \<and> minify = minifyHTML
         \<or> task = css_file \<and> minify = minifyCSS
         \<or> task = js_file \<and> minify = minifyJS"
    and "task cfg env f s = (Ok u, s')"
  shows "\<exists>src. lookup (files s) f = Some (File src)
     \<and> lookup (files s') (distDir cfg @ [basename f])
         = Some (File (utf8_encode (minify (utf8_decode src))))
     \<and> length (utf8_encode (minify (utf8_decode src))) \<le> length (utf8_encode (utf8_decode src))
     \<and> (well_formed src \<longrightarrow> length (utf8_encode (minify (utf8_decode src))) \<le> length src)"
proof -
  have run: "bind (readFile env f) (\<lambda>content.
               writeFile env (distDir cfg @ [basename f]) (minify content)) s = (Ok u, s')"
    using assms(2,3) minified_tasks [OF assms(1), of env f] by auto
  obtain src where src: "lookup (files s) f = Some (File src)"
      "lookup (files s') (distDir cfg @ [basename f])
         = Some (File (utf8_encode (minify (utf8_decode src))))"
    using read_write_Ok [OF run] by blast
  have "utf8_length (minify x) \<le> utf8_length x" for x
    using assms(2) minify_shrinks [of x] by auto
  then have le: "length (utf8_encode (minify (utf8_decode src)))
                   \<le> length (utf8_encode (utf8_decode src))"
    by (simp add: length_utf8_encode)
  have "length (utf8_encode (minify (utf8_decode src))) \<le> length src" if "well_formed src"
    using le that by (simp add: well_formed_def)
  then show ?thesis using src le by blast
qed

theorem minify_never_longer_witness:
  "\<not> dev demo_config
   \<and> fst (html_file demo_config demo_env [js ''proj'', js ''src'', js ''index.html'']
            watched_state) = Ok ()
   \<and> lookup (files watched_state) [js ''proj'', js ''src'', js ''index.html'']
       = Some (File (utf8_encode (js ''<p>  one  </p>'')))
   \<and> well_formed (utf8_encode (js ''<p>  one  </p>''))
   \<and> lookup (files (snd (html_file demo_config demo_env
          [js ''proj'', js ''src'', js ''index.html''] watched_state)))
        (distDir demo_config @ [basename [js ''proj'', js ''src'', js ''index.html'']])
       = Some (File (utf8_encode (minifyHTML (utf8_decode (utf8_encode (js ''<p>  one  </p>''))))))
   \<and> length (utf8_encode (minifyHTML (utf8_decode (utf8_encode (js ''<p>  one  </p>'')))))
       \<le> length (utf8_encode (js ''<p>  one  </p>''))"
proof -
  let ?f = "[js ''proj'', js ''src'', js ''index.html'']"
  let ?b = "utf8_encode (js ''<p>  one  </p>'')"
  let ?s' = "snd (html_file demo_config demo_env ?f watched_state)"
  have a: "\<not> dev demo_config" by code_simp
  have b: "fst (html_file demo_config demo_env ?f watched_state) = Ok ()" by code_simp
  have c: "lookup (files watched_state) ?f = Some (File ?b)" by code_simp
  have d: "well_formed ?b" by code_simp
  have run: "html_file demo_config demo_env ?f watched_state = (Ok (), ?s')"
    using b by (metis prod.collapse)
  obtain src where src: "lookup (files watched_state) ?f = Some (File src)"
      "lookup (files ?s') (distDir demo_config @ [basename ?f])
         = Some (File (utf8_encode (minifyHTML (utf8_decode src))))"
      "well_formed src \<longrightarrow> length (utf8_encode (minifyHTML (utf8_decode src))) \<le> length src"
    using minify_never_longer [where task = html_file and minify = minifyHTML, OF a _ run]
    by blast
  have e: "src = ?b" using src(1) c by simp
  show ?thesis using a b c d src(2,3) unfolding e by blast
qed

section \<open>Idempotence of the minifiers\<close>

lemma deleting_empty:
  assumes "shrinking m" "\<And>s r rest. m s = Some (r, rest) \<Longrightarrow> r = []"
  shows "deleting m"
  unfolding deleting_def
proof (intro allI impI)
  fix s r rest assume m: "m s = Some (r, rest)"
  obtain mid where "s = mid @ rest" "mid \<noteq> []"
    using assms(1) m unfolding shrinking_def by blast
  then show "length r + length rest < length s" using assms(2) [OF m] by (cases mid) auto
qed

lemma deleting_m_block_comment: "deleting m_block_comment"
proof (rule deleting_empty [OF shrinking_m_block_comment])
  fix s r rest assume "m_block_comment s = Some (r, rest)"
  then show "r = []"
    by (cases s rule: m_block_comment.cases) (auto split: if_splits option.splits)
qed

lemma deleting_m_line_comment: "deleting m_line_comment"
proof (rule deleting_empty [OF shrinking_m_line_comment])
  fix s r rest assume "m_line_comment s = Some (r, rest)"
  then show "r = []"
    by (cases s rule: m_line_comment.cases) (auto split: if_splits)
qed

lemma deleting_m_semi_brace: "deleting m_semi_brace"
  unfolding deleting_def
proof (intro allI impI)
  fix s r rest assume m: "m_semi_brace s = Some (r, rest)"
  then obtain c cs where s: "s = c # cs" by (cases s) auto
  then have d: "dropWhile isWs cs = ch_rbrace # rest" "r = [ch_rbrace]"
    using m by (auto split: if_splits list.splits)
  have "length (dropWhile isWs cs) \<le> length cs" by (rule length_dropWhile_le)
  then show "length r + length rest < length s" using d s by simp
qed

lemma replace_all_deleting:
  "shrinking m \<Longrightarrow> deleting m \<Longrightarrow> replace_all m s \<noteq> s \<Longrightarrow>
   length (replace_all m s) < length s"
proof (induction m s rule: replace_all.induct)
  case (1 m)
  then show ?case by simp
next
  case (2 m c cs)
  show ?case
  proof (cases "m (c # cs)")
    case None
    then have "replace_all m cs \<noteq> cs" using 2(6) by simp
    then show ?thesis using 2(1) [OF None 2(4,5)] None by simp
  next
    case (Some a)
    obtain r rest where a: "a = (r, rest)" by (cases a)
    show ?thesis
    proof (cases "length rest \<le> length cs")
      case True
      have "length (replace_all m rest) \<le> length rest" using 2(4) by (rule length_replace_all)
      moreover have "length r + length rest < length (c # cs)"
        using 2(5) Some a unfolding deleting_def by blast
      ultimately show ?thesis using Some a True by simp
    next
      case False
      then have "replace_all m cs \<noteq> cs" using 2(6) Some a by simp
      then show ?thesis using 2(3) [OF Some a [symmetric] False 2(4,5)] Some a False by simp
    qed
  qed
qed

lemma minifyJS_output:
  "minifyJS x = drop_spaces js_drop None
     (replace_all m_ws_run (replace_all m_line_comment (replace_all m_block_comment x)))"
  unfolding minifyJS_def by (rule js_tail_drop_spaces) (rule collapse_single)

lemma minifyCSS_output:
  "minifyCSS x = drop_spaces css_drop None
     (replace_all m_semi_brace (replace_all m_ws_run (replace_all m_block_comment x)))"
proof -
  have "single_spaced (replace_all m_semi_brace (replace_all m_ws_run
          (replace_all m_block_comment x)))"
    by (intro semi_brace_single collapse_single)
  then show ?thesis unfolding minifyCSS_def by (simp only: css_tail_drop_spaces)
qed

lemma minifyJS_fixed:
  assumes "replace_all m_line_comment (replace_all m_block_comment (minifyJS x)) = minifyJS x"
  shows "minifyJS (minifyJS x) = minifyJS x"
proof -
  let ?y = "replace_all m_ws_run (replace_all m_line_comment (replace_all m_block_comment x))"
  let ?z = "drop_spaces js_drop None ?y"
  have y: "single_spaced ?y" by (rule collapse_single)
  then have z: "single_spaced ?z" by (rule drop_spaces_single)
  have zx: "minifyJS x = ?z" by (rule minifyJS_output)
  have "minifyJS ?z = drop_spaces js_drop None (replace_all m_ws_run
          (replace_all m_line_comment (replace_all m_block_comment ?z)))"
    by (rule minifyJS_output)
  also have "replace_all m_line_comment (replace_all m_block_comment ?z) = ?z"
    using assms unfolding zx .
  also have "replace_all m_ws_run ?z = ?z" using z by (rule collapse_id)
  also have "drop_spaces js_drop None ?z = ?z" using y by (rule drop_spaces_idem)
  finally show ?thesis unfolding zx .
qed

lemma minifyCSS_fixed:
  assumes "replace_all m_block_comment (minifyCSS x) = minifyCSS x"
    and "replace_all m_semi_brace (minifyCSS x) = minifyCSS x"
  shows "minifyCSS (minifyCSS x) = minifyCSS x"
proof -
  let ?y = "replace_all m_semi_brace (replace_all m_ws_run (replace_all m_block_comment x))"
  let ?z = "drop_spaces css_drop None ?y"
  have y: "single_spaced ?y" by (intro semi_brace_single collapse_single)
  then have z: "single_spaced ?z" by (rule drop_spaces_single)
  have zx: "minifyCSS x = ?z" by (rule minifyCSS_output)
  have "minifyCSS ?z = drop_spaces css_drop None (replace_all m_semi_brace
          (replace_all m_ws_run (replace_all m_block_comment ?z)))"
    by (rule minifyCSS_output)
  also have "replace_all m_block_comment ?z = ?z" using assms(1) unfolding zx .
  also have "replace_all m_ws_run ?z = ?z" using z by (rule collapse_id)
  also have "replace_all m_semi_brace ?z = ?z" using assms(2) unfolding zx .
  also have "drop_spaces css_drop None ?z = ?z" using y by (rule drop_spaces_idem)
  finally show ?thesis unfolding zx .
qed

lemma minifyJS_changed:
  assumes "replace_all m_line_comment (replace_all m_block_comment z) \<noteq> z"
  shows "minifyJS z \<noteq> z"
proof -
  let ?b = "replace_all m_block_comment z"
  let ?l = "replace_all m_line_comment ?b"
  have b: "length ?b \<le> length z" by (intro length_replace_all shrinking_m_block_comment)
  have l: "length ?l \<le> length ?b" by (intro length_replace_all shrinking_m_line_comment)
  have "length ?l < length z"
  proof (cases "?b = z")
    case True
    then have "replace_all m_line_comment z \<noteq> z" using assms by simp
    then have "length (replace_all m_line_comment z) < length z"
      by (intro replace_all_deleting shrinking_m_line_comment deleting_m_line_comment)
    then show ?thesis using True by simp
  next
    case False
    then have "length ?b < length z"
      by (intro replace_all_deleting shrinking_m_block_comment deleting_m_block_comment)
    then show ?thesis using l by simp
  qed
  moreover have "length (minifyJS z) \<le> length ?l"
    unfolding minifyJS_def
    by (intro order_trans [OF length_trim] order_trans [OF length_replace_all]
          shrinking_m_tighten shrinking_m_ws_run order_refl)
  ultimately show ?thesis by auto
qed

lemma minifyCSS_changed:
  assumes "single_spaced z"
    and "replace_all m_block_comment z \<noteq> z \<or> replace_all m_semi_brace z \<noteq> z"
  shows "minifyCSS z \<noteq> z"
proof -
  let ?b = "replace_all m_block_comment z"
  let ?s = "replace_all m_semi_brace (replace_all m_ws_run ?b)"
  have c: "shrinking (m_char_ws ch_lbrace)" "shrinking (m_char_ws ch_semi)"
      "shrinking (m_char_ws ch_comma)" "shrinking (m_char_ws ch_colon)"
    by (simp_all add: shrinking_m_char_ws)
  have "length ?s < length z"
  proof (cases "?b = z")
    case True
    then have "replace_all m_semi_brace z \<noteq> z" using assms(2) by simp
    then have "length (replace_all m_semi_brace z) < length z"
      by (intro replace_all_deleting shrinking_m_semi_brace deleting_m_semi_brace)
    then show ?thesis using True collapse_id [OF assms(1)] by simp
  next
    case False
    then have "length ?b < length z"
      by (intro replace_all_deleting shrinking_m_block_comment deleting_m_block_comment)
    moreover have "length ?s \<le> length ?b"
      by (intro order_trans [OF length_replace_all] shrinking_m_semi_brace shrinking_m_ws_run
            order_refl)
    ultimately show ?thesis by simp
  qed
  moreover have "length (minifyCSS z) \<le> length ?s"
    unfolding minifyCSS_def
    by (intro order_trans [OF length_trim] order_trans [OF length_replace_all] c order_refl)
  ultimately show ?thesis by auto
qed

lemma single_spaced_minifyCSS: "single_spaced (minifyCSS x)"
  unfolding minifyCSS_output by (intro drop_spaces_single semi_brace_single collapse_single)

text \<open>
  C3, as stated, fails: the stylesheet and the script minifier are not idempotent.
  A doubled semicolon before a closing brace loses one semicolon per run, and deleting a
  block comment can join a slash and a star into a new comment opener.
\<close>

theorem minify_idempotent_counterexample:
  "minifyCSS (minifyCSS (js ''a{b:c;;}'')) \<noteq> minifyCSS (js ''a{b:c;;}'')
   \<and> utf8_length (minifyCSS (minifyCSS (js ''a{b:c;;}'')))
       < utf8_length (minifyCSS (js ''a{b:c;;}''))
   \<and> minifyJS (minifyJS (js ''//**/**/'')) \<noteq> minifyJS (js ''//**/**/'')
   \<and> utf8_length (minifyJS (minifyJS (js ''//**/**/'')))
       < utf8_length (minifyJS (js ''//**/**/''))"
  by code_simp

text \<open>
  C3, amended. The markup minifier is idempotent on every input. The script minifier is
  idempotent on an input exactly when its output has no comment left for it to delete
  (deleting block comments and then line comments leaves the output as it is), and the
  stylesheet minifier exactly when its output has no block comment left and no semicolon
  left before a closing brace. So the script minifier is idempotent on every input whose
  output has no slash, and the stylesheet minifier on every input whose output has no
  slash and no semicolon that is followed, white space apart, by a closing brace; the
  input itself may hold comments. On these inputs a second run changes nothing, so it
  does not alter the byte length either.
\<close>

theorem minify_idempotent:
  "minifyHTML (minifyHTML x) = minifyHTML x
   \<and> (minifyJS (minifyJS x) = minifyJS x \<longleftrightarrow>
        replace_all m_line_comment (replace_all m_block_comment (minifyJS x)) = minifyJS x)
   \<and> (minifyCSS (minifyCSS x) = minifyCSS x \<longleftrightarrow>
        replace_all m_block_comment (minifyCSS x) = minifyCSS x
        \<and> replace_all m_semi_brace (minifyCSS x) = minifyCSS x)
   \<and> (ch_slash \<notin> set (minifyJS x) \<longrightarrow> minifyJS (minifyJS x) = minifyJS x)
   \<and> (ch_slash \<notin> set (minifyCSS x) \<and> successively no_semi_brace (non_ws (minifyCSS x)) \<longrightarrow>
        minifyCSS (minifyCSS x) = minifyCSS x)"
proof -
  have 1: "minifyHTML (minifyHTML x) = minifyHTML x" by (rule minifyHTML_idem)
  have 2: "minifyJS (minifyJS x) = minifyJS x \<longleftrightarrow>
        replace_all m_line_comment (replace_all m_block_comment (minifyJS x)) = minifyJS x"
    using minifyJS_fixed [of x] minifyJS_changed [of "minifyJS x"] by blast
  have 3: "minifyCSS (minifyCSS x) = minifyCSS x \<longleftrightarrow>
        replace_all m_block_comment (minifyCSS x) = minifyCSS x
        \<and> replace_all m_semi_brace (minifyCSS x) = minifyCSS x"
    using minifyCSS_fixed [of x] minifyCSS_changed [OF single_spaced_minifyCSS, of x] by blast
  have 4: "minifyJS (minifyJS x) = minifyJS x" if "ch_slash \<notin> set (minifyJS x)"
    using that by (intro minifyJS_fixed) (simp add: no_slash_block no_slash_line)
  have 5: "minifyCSS (minifyCSS x) = minifyCSS x"
    if "ch_slash \<notin> set (minifyCSS x) \<and> successively no_semi_brace (non_ws (minifyCSS x))"
    using that by (intro minifyCSS_fixed) (simp_all add: no_slash_block semi_brace_id)
  show ?thesis using 1 2 3 4 5 by blast
qed

theorem minify_idempotent_witness:
  "ch_slash \<in> set (js ''f ( ) ; // note'')
   \<and> ch_slash \<notin> set (minifyJS (js ''f ( ) ; // note''))
   \<and> minifyJS (minifyJS (js ''f ( ) ; // note'')) = minifyJS (js ''f ( ) ; // note'')
   \<and> ch_slash \<in> set (js ''/* c */ a { b : c ; }'')
   \<and> ch_slash \<notin> set (minifyCSS (js ''/* c */ a { b : c ; }''))
   \<and> successively no_semi_brace (non_ws (minifyCSS (js ''/* c */ a { b : c ; }'')))
   \<and> minifyCSS (minifyCSS (js ''/* c */ a { b : c ; }'')) = minifyCSS (js ''/* c */ a { b : c ; }'')
   \<and> minifyCSS (js ''/* c */ a { b : c ; }'') = js ''a {b :c }''
   \<and> minifyJS (js ''f ( ) ; // note'') = js ''f();''"
proof -
  have a: "ch_slash \<in> set (js ''f ( ) ; // note'')" by code_simp
  have b: "ch_slash \<notin> set (minifyJS (js ''f ( ) ; // note''))" by code_simp
  have c: "ch_slash \<in> set (js ''/* c */ a { b : c ; }'')" by code_simp
  have d: "ch_slash \<notin> set (minifyCSS (js ''/* c */ a { b : c ; }''))" by code_simp
  have e: "successively no_semi_brace (non_ws (minifyCSS (js ''/* c */ a { b : c ; }'')))"
    by code_simp
  have f: "minifyCSS (js ''/* c */ a { b : c ; }'') = js ''a {b :c }''" by code_simp
  have g: "minifyJS (js ''f ( ) ; // note'') = js ''f();''" by code_simp
  have h: "minifyJS (minifyJS (js ''f ( ) ; // note'')) = minifyJS (js ''f ( ) ; // note'')"
    using minify_idempotent [of "js ''f ( ) ; // note''"] b by blast
  have i: "minifyCSS (minifyCSS (js ''/* c */ a { b : c ; }''))
             = minifyCSS (js ''/* c */ a { b : c ; }'')"
    using minify_idempotent [of "js ''/* c */ a { b : c ; }''"] d e by blast
  show ?thesis by (intro conjI a b h c d e i f g)
qed

section \<open>The order of the tasks\<close>

lemma bind_assoc: "bind (bind f g) h = bind f (\<lambda>x. bind (g x) h)"
  by (intro ext) (simp add: bind_def split: prod.splits result.splits)

lemma run_task_Ok:
  assumes "run_task nt s = (Ok u, s1)"
  obtains b where "snd nt (mark (Processing (fst nt)) s) = (Ok (), b)"
    and "s1 = mark (Processed (fst nt)) b"
  using assms
  by (auto simp: run_task_def bind_def emit_def mark_def split: prod.splits result.splits)

lemma run_task_Throw:
  assumes "run_task nt s = (Throw e, s1)"
  shows "snd nt (mark (Processing (fst nt)) s) = (Throw e, s1)"
  using assms
  by (auto simp: run_task_def bind_def emit_def mark_def split: prod.splits result.splits)

lemma for_each_in_turn:
  assumes "for_each nts run_task s = (r, s')"
  shows "r = Ok () \<and> in_turn nts s = Some s'
     \<or> (\<exists>k sk e. k < length nts \<and> in_turn (take k nts) s = Some sk
           \<and> snd (nts ! k) (mark (Processing (fst (nts ! k))) sk) = (Throw e, s')
           \<and> r = Throw e)"
  using assms
proof (induction nts arbitrary: s)
  case Nil
  then show ?case by simp
next
  case (Cons nt nts)
  from Cons.prems show ?case
  proof (cases rule: for_each_Cons_cases)
    case (ok u s1)
    obtain b where b: "snd nt (mark (Processing (fst nt)) s) = (Ok (), b)"
        "s1 = mark (Processed (fst nt)) b"
      using run_task_Ok [OF ok(1)] by blast
    have step: "in_turn (nt # ns) s = in_turn ns s1" for ns using b by simp
    from Cons.IH [OF ok(2)] show ?thesis
    proof
      assume "r = Ok () \<and> in_turn nts s1 = Some s'"
      then show ?thesis using step by simp
    next
      assume "\<exists>k sk e. k < length nts \<and> in_turn (take k nts) s1 = Some sk
           \<and> snd (nts ! k) (mark (Processing (fst (nts ! k))) sk) = (Throw e, s')
           \<and> r = Throw e"
      then obtain k sk e where k: "k < length nts" "in_turn (take k nts) s1 = Some sk"
          "snd (nts ! k) (mark (Processing (fst (nts ! k))) sk) = (Throw e, s')" "r = Throw e"
        by blast
      have "Suc k < length (nt # nts) \<and> in_turn (take (Suc k) (nt # nts)) s = Some sk
           \<and> snd ((nt # nts) ! Suc k) (mark (Processing (fst ((nt # nts) ! Suc k))) sk)
               = (Throw e, s')
           \<and> r = Throw e"
        using k step by simp
      then show ?thesis by blast
    qed
  next
    case (throw e)
    have "0 < length (nt # nts) \<and> in_turn (take 0 (nt # nts)) s = Some s
           \<and> snd ((nt # nts) ! 0) (mark (Processing (fst ((nt # nts) ! 0))) s) = (Throw e, s')
           \<and> r = Throw e"
      using run_task_Throw [of nt s e s'] throw by simp
    then show ?thesis by blast
  qed
qed

lemma build_prepare:
  "bind (emit (Out BuildStart)) (\<lambda>_. build_body cfg env)
     = bind (prepare cfg env) (\<lambda>_.
         bind (for_each (tasks cfg env) run_task) (\<lambda>_.
         bind (emit (Out BuildDone)) (\<lambda>_. if dev cfg then startDevServer else ret ())))"
  by (simp add: build_body_def prepare_def bind_assoc)

lemma build_finish:
  "bind (emit (Out BuildDone)) (\<lambda>_. if dev cfg then startDevServer else ret ()) s
     = (Ok (), if dev cfg then mark WatchStart (mark DevStart (mark BuildDone s))
               else mark BuildDone s)"
  by (simp add: bind_def emit_def startDevServer_def ret_def mark_def)

lemma build_in_turn:
  assumes "build cfg env s = (out, s')"
  shows "(out \<noteq> Exit 1 \<longrightarrow>
       (\<exists>s0 s5. prepare cfg env s = (Ok (), s0) \<and> in_turn (tasks cfg env) s0 = Some s5
          \<and> s' = (if dev cfg then mark WatchStart (mark DevStart (mark BuildDone s5))
                   else mark BuildDone s5)))
    \<and> (out = Exit 1 \<longrightarrow>
       (\<exists>e s0. prepare cfg env s = (Throw e, s0)
          \<and> s' = s0\<lparr>trace := trace s0 @ [Err (BuildError e)]\<rparr>)
       \<or> (\<exists>s0 k sk e b. prepare cfg env s = (Ok (), s0) \<and> k < length (tasks cfg env)
            \<and> in_turn (take k (tasks cfg env)) s0 = Some sk
            \<and> snd (tasks cfg env ! k) (mark (Processing (fst (tasks cfg env ! k))) sk)
                = (Throw e, b)
            \<and> s' = b\<lparr>trace := trace b @ [Err (BuildError e)]\<rparr>))"
proof -
  let ?rest = "\<lambda>_::unit. bind (for_each (tasks cfg env) run_task) (\<lambda>_.
         bind (emit (Out BuildDone)) (\<lambda>_. if dev cfg then startDevServer else ret ()))"
  have bd: "build cfg env s =
      (case bind (prepare cfg env) ?rest s of
         (Ok _, s') \<Rightarrow> (if dev cfg then Watching else Finished, s')
       | (Throw e, s') \<Rightarrow> (Exit 1, s'\<lparr>trace := trace s' @ [Err (BuildError e)]\<rparr>))"
    unfolding build_def build_prepare ..
  obtain r0 s0 where p: "prepare cfg env s = (r0, s0)" by (cases "prepare cfg env s")
  show ?thesis
  proof (cases r0)
    case (Throw e)
    then have "bind (prepare cfg env) ?rest s = (Throw e, s0)" using p by (simp add: bind_def)
    then have "out = Exit 1" "s' = s0\<lparr>trace := trace s0 @ [Err (BuildError e)]\<rparr>"
      using assms bd by simp_all
    then show ?thesis using p Throw by blast
  next
    case (Ok u0)
    then have p': "prepare cfg env s = (Ok (), s0)" using p by simp
    obtain r s1 where t: "for_each (tasks cfg env) run_task s0 = (r, s1)"
      by (cases "for_each (tasks cfg env) run_task s0")
    from for_each_in_turn [OF t] show ?thesis
    proof
      assume ok: "r = Ok () \<and> in_turn (tasks cfg env) s0 = Some s1"
      let ?fin = "if dev cfg then mark WatchStart (mark DevStart (mark BuildDone s1))
                  else mark BuildDone s1"
      have "bind (prepare cfg env) ?rest s = (Ok (), ?fin)"
        using p' t ok build_finish [of cfg s1] by (simp add: bind_def)
      then have "out = (if dev cfg then Watching else Finished)" "s' = ?fin"
        using assms bd by simp_all
      then show ?thesis using p' ok by auto
    next
      assume "\<exists>k sk e. k < length (tasks cfg env)
           \<and> in_turn (take k (tasks cfg env)) s0 = Some sk
           \<and> snd (tasks cfg env ! k) (mark (Processing (fst (tasks cfg env ! k))) sk)
               = (Throw e, s1)
           \<and> r = Throw e"
      then obtain k sk e where k: "k < length (tasks cfg env)"
          "in_turn (take k (tasks cfg env)) s0 = Some sk"
          "snd (tasks cfg env ! k) (mark (Processing (fst (tasks cfg env ! k))) sk)
             = (Throw e, s1)" "r = Throw e"
        by blast
      have "bind (prepare cfg env) ?rest s = (Throw e, s1)"
        using p' t k(4) by (simp add: bind_def)
      then have "out = Exit 1" "s' = s1\<lparr>trace := trace s1 @ [Err (BuildError e)]\<rparr>"
        using assms bd by simp_all
      then show ?thesis using p' k by blast
    qed
  qed
qed

text \<open>
  C2, amended. A full build runs the five tasks in the fixed order markup, stylesheet,
  script, asset, data, each at most once, and starts none before the one before it has
  returned. A build that does not fail runs all five, each exactly once and each on the
  state the one before it left, between its two markers, and then prints that it is
  done. A build that fails (exit status 1) fails while it makes the output directories,
  or it runs the first \<open>k\<close> of the five tasks in this way, for some \<open>k\<close> below five, the
  next task throws, and no later task is started. The markers printed are the
  corresponding initial part of \<open>task_order\<close>.
\<close>

theorem build_task_order:
  assumes "build cfg env s = (out, s')"
    and "five = [(''html'', processHTML cfg env), (''styles'', processStyles cfg env),
                 (''scripts'', processScripts cfg env), (''assets'', processAssets cfg env),
                 (''data'', processData cfg env)]"
  shows "(out \<noteq> Exit 1 \<longrightarrow>
       (\<exists>s0 s5. prepare cfg env s = (Ok (), s0) \<and> in_turn five s0 = Some s5
          \<and> s' = (if dev cfg then mark WatchStart (mark DevStart (mark BuildDone s5))
                   else mark BuildDone s5))
       \<and> filter is_marker (new_events s s') = task_order)
    \<and> (out = Exit 1 \<longrightarrow>
       ((\<exists>e s0. prepare cfg env s = (Throw e, s0)
           \<and> s' = s0\<lparr>trace := trace s0 @ [Err (BuildError e)]\<rparr>)
        \<or> (\<exists>s0 k sk e b. prepare cfg env s = (Ok (), s0) \<and> k < 5
             \<and> in_turn (take k five) s0 = Some sk
             \<and> snd (five ! k) (mark (Processing (fst (five ! k))) sk) = (Throw e, b)
             \<and> s' = b\<lparr>trace := trace b @ [Err (BuildError e)]\<rparr>))
       \<and> (\<exists>k<10. (k = 0 \<or> odd k) \<and> filter is_marker (new_events s s') = take k task_order))"
proof -
  have five: "tasks cfg env = five" "length five = 5"
    using assms(2) by (simp_all add: tasks_def)
  show ?thesis
    using build_in_turn [OF assms(1)] build_markers [OF assms(1)] unfolding five by blast
qed

text \<open>
  Claim C2, as stated, fails for a build that aborts: when the script compiler rejects a
  file the script task is the last one started, and the asset and data tasks never run.
\<close>

theorem build_task_order_counterexample:
  "fst (build demo_config failing_env demo_state) = Exit 1
   \<and> filter is_marker
         (new_events demo_state (snd (build demo_config failing_env demo_state)))
       = [Out (Processing ''html''), Out (Processed ''html''),
          Out (Processing ''styles''), Out (Processed ''styles''),
          Out (Processing ''scripts'')]
   \<and> Out (Processing ''assets'')
         \<notin> set (new_events demo_state (snd (build demo_config failing_env demo_state)))
   \<and> Out (Processing ''data'')
         \<notin> set (new_events demo_state (snd (build demo_config failing_env demo_state)))"
  by code_simp

theorem build_task_order_witness:
  "fst (build demo_config demo_env demo_state) \<noteq> Exit 1
   \<and> (\<exists>s0 s5. prepare demo_config demo_env demo_state = (Ok (), s0)
         \<and> in_turn [(''html'', processHTML demo_config demo_env),
                     (''styles'', processStyles demo_config demo_env),
                     (''scripts'', processScripts demo_config demo_env),
                     (''assets'', processAssets demo_config demo_env),
                     (''data'', processData demo_config demo_env)] s0 = Some s5
         \<and> snd (build demo_config demo_env demo_state) = mark BuildDone s5)
   \<and> filter is_marker (new_events demo_state (snd (build demo_config demo_env demo_state)))
       = task_order
   \<and> fst (build demo_config failing_env demo_state) = Exit 1
   \<and> (\<exists>k<10. (k = 0 \<or> odd k) \<and>
         filter is_marker
           (new_events demo_state (snd (build demo_config failing_env demo_state)))
         = take k task_order)"
proof -
  have a: "fst (build demo_config demo_env demo_state) \<noteq> Exit 1" by code_simp
  have b: "fst (build demo_config failing_env demo_state) = Exit 1" by code_simp
  have d: "\<not> dev demo_config" by (simp add: demo_config_def default_config_def)
  note w1 = build_task_order [where cfg = demo_config and env = demo_env and s = demo_state,
      OF prod.collapse [symmetric] refl]
  note w2 = build_task_order [where cfg = demo_config and env = failing_env
      and s = demo_state, OF prod.collapse [symmetric] refl]
  have c: "\<exists>s0 s5. prepare demo_config demo_env demo_state = (Ok (), s0)
         \<and> in_turn [(''html'', processHTML demo_config demo_env),
                     (''styles'', processStyles demo_config demo_env),
                     (''scripts'', processScripts demo_config demo_env),
                     (''assets'', processAssets demo_config demo_env),
                     (''data'', processData demo_config demo_env)] s0 = Some s5
         \<and> snd (build demo_config demo_env demo_state) = mark BuildDone s5"
    using w1 a d by simp
  have e: "filter is_marker
             (new_events demo_state (snd (build demo_config demo_env demo_state))) = task_order"
    using w1 a by blast
  have f: "\<exists>k<10. (k = 0 \<or> odd k) \<and>
         filter is_marker
           (new_events demo_state (snd (build demo_config failing_env demo_state)))
         = take k task_order"
    using w2 b by blast
  show ?thesis by (intro conjI a c e b f)
qed

section \<open>Routing of change events\<close>












section \<open>The markup task writes flat\<close>

lemma html_file_Ok:
  assumes "html_file cfg env f s = (Ok u, s1)"
  obtains b t where "lookup (files s) f = Some (File b)"
    and "put_file (html_target cfg f) (utf8_encode (html_output cfg (utf8_decode b))) (files s)
           = Inr t"
    and "files s1 = t"
    and "trace s1 = trace s
           @ [Read f, Write (html_target cfg f) (html_output cfg (utf8_decode b))]"
proof -
  from assms [unfolded html_file_def Let_def] show ?thesis
  proof (cases rule: bind_cases)
    case (ok c s0)
    obtain b where r: "lookup (files s) f = Some (File b)" "c = utf8_decode b"
        "s0 = s\<lparr>trace := trace s @ [Read f]\<rparr>"
      using ok(1) by (auto simp: readFile_def split: option.splits node.splits)
    obtain t where t: "put_file (html_target cfg f) (utf8_encode (html_output cfg c)) (files s0)
          = Inr t"
        "s1 = s0\<lparr>files := t,
           trace := trace s0 @ [Write (html_target cfg f) (html_output cfg c)]\<rparr>"
      using ok(2) by (auto simp: writeFile_def html_target_def html_output_def split: sum.splits)
    show ?thesis using r t by (intro that [of b t]) simp_all
  next
    case (throw e)
    then show ?thesis by simp
  qed
qed

lemma html_loop_frame:
  assumes "for_each fs (html_file cfg env) s = (r, s')"
    and "\<forall>f\<in>set fs. \<not> prefix q (html_target cfg f)"
  shows "lookup (files s') q = lookup (files s) q"
proof -
  have "preserves (\<lambda>p. p = q) (for_each fs (html_file cfg env))"
    using assms(2)
    by (intro preserves_for_each preserves_html_file) (simp add: html_target_def)
  then show ?thesis using assms(1) by (rule preservesD) simp
qed

lemma html_target_prefix:
  "prefix (html_target cfg f) (html_target cfg g) \<longleftrightarrow> html_target cfg g = html_target cfg f"
  by (auto simp: html_target_def)

lemma html_events_Cons:
  "html_events cfg (f # fs) (c # cs)
     = [Read f, Write (html_target cfg f) (html_output cfg c)] @ html_events cfg fs cs"
  by (simp add: html_events_def)

lemma html_loop:
  assumes "for_each fs (html_file cfg env) s = (Ok u, s')"
  shows "\<exists>bs. length bs = length fs
     \<and> trace s' = trace s @ html_events cfg fs (map utf8_decode bs)
     \<and> (\<forall>j<length fs.
          (\<forall>k<length fs. j < k \<longrightarrow> html_target cfg (fs ! k) \<noteq> html_target cfg (fs ! j)) \<longrightarrow>
          lookup (files s') (html_target cfg (fs ! j))
            = Some (File (utf8_encode (html_output cfg (utf8_decode (bs ! j))))))
     \<and> ((\<forall>f\<in>set fs. \<not> prefix (distDir cfg) f) \<longrightarrow>
          (\<forall>j<length fs. lookup (files s) (fs ! j) = Some (File (bs ! j))))"
  using assms
proof (induction fs arbitrary: s)
  case Nil
  then show ?case by (simp add: html_events_def)
next
  case (Cons f fs)
  from Cons.prems show ?case
  proof (cases rule: for_each_Cons_cases)
    case (throw e)
    then show ?thesis by simp
  next
    case (ok u1 s1)
    obtain b t where c: "lookup (files s) f = Some (File b)"
      and t: "put_file (html_target cfg f) (utf8_encode (html_output cfg (utf8_decode b)))
                (files s) = Inr t"
      and f1: "files s1 = t"
      and t1: "trace s1 = trace s
                 @ [Read f, Write (html_target cfg f) (html_output cfg (utf8_decode b))]"
      using html_file_Ok [OF ok(1)] by blast
    obtain bs where len: "length bs = length fs"
      and tr: "trace s' = trace s1 @ html_events cfg fs (map utf8_decode bs)"
      and fin: "\<And>j. j < length fs \<Longrightarrow>
          (\<forall>k<length fs. j < k \<longrightarrow> html_target cfg (fs ! k) \<noteq> html_target cfg (fs ! j)) \<Longrightarrow>
          lookup (files s') (html_target cfg (fs ! j))
            = Some (File (utf8_encode (html_output cfg (utf8_decode (bs ! j)))))"
      and ini: "(\<forall>f\<in>set fs. \<not> prefix (distDir cfg) f) \<Longrightarrow>
          (\<forall>j<length fs. lookup (files s1) (fs ! j) = Some (File (bs ! j)))"
      using Cons.IH [OF ok(2)] by blast
    have 1: "length (b # bs) = length (f # fs)" using len by simp
    have 2: "trace s' = trace s @ html_events cfg (f # fs) (map utf8_decode (b # bs))"
      using tr t1 by (simp add: html_events_Cons)
    have 3: "lookup (files s') (html_target cfg ((f # fs) ! j))
               = Some (File (utf8_encode (html_output cfg (utf8_decode ((b # bs) ! j)))))"
      if j: "j < length (f # fs)"
        and last: "\<forall>k<length (f # fs). j < k \<longrightarrow>
               html_target cfg ((f # fs) ! k) \<noteq> html_target cfg ((f # fs) ! j)"
      for j
    proof (cases j)
      case 0
      have "\<forall>g\<in>set fs. \<not> prefix (html_target cfg f) (html_target cfg g)"
      proof
        fix g assume "g \<in> set fs"
        then obtain k where k: "k < length fs" "g = fs ! k" by (auto simp: in_set_conv_nth)
        have "html_target cfg ((f # fs) ! Suc k) \<noteq> html_target cfg ((f # fs) ! j)"
          using last k(1) 0 by (intro last [rule_format]) simp_all
        then show "\<not> prefix (html_target cfg f) (html_target cfg g)"
          using k(2) 0 by (simp add: html_target_prefix)
      qed
      then have "lookup (files s') (html_target cfg f) = lookup (files s1) (html_target cfg f)"
        by (rule html_loop_frame [OF ok(2)])
      also have "\<dots> = Some (File (utf8_encode (html_output cfg (utf8_decode b))))"
        unfolding f1 using t by (rule lookup_put_same)
      finally show ?thesis using 0 by simp
    next
      case (Suc j')
      have "\<forall>k<length fs. j' < k \<longrightarrow> html_target cfg (fs ! k) \<noteq> html_target cfg (fs ! j')"
      proof (intro allI impI)
        fix k assume k: "k < length fs" "j' < k"
        have "html_target cfg ((f # fs) ! Suc k) \<noteq> html_target cfg ((f # fs) ! j)"
          using k Suc by (intro last [rule_format]) simp_all
        then show "html_target cfg (fs ! k) \<noteq> html_target cfg (fs ! j')" using Suc by simp
      qed
      then show ?thesis using fin [of j'] j Suc by simp
    qed
    have 4: "lookup (files s) ((f # fs) ! j) = Some (File ((b # bs) ! j))"
      if out: "\<forall>g\<in>set (f # fs). \<not> prefix (distDir cfg) g" and j: "j < length (f # fs)" for j
    proof (cases j)
      case 0
      then show ?thesis using c by simp
    next
      case (Suc j')
      then have j': "j' < length fs" using j by simp
      have a: "lookup t (fs ! j') = Some (File (bs ! j'))"
        using ini out j' f1 by simp
      have "\<not> prefix (distDir cfg) (fs ! j')" using out j' by simp
      then have "fs ! j' \<noteq> html_target cfg f" by (auto simp: html_target_def)
      then have "lookup (files s) (fs ! j') = Some (File (bs ! j'))"
        using lookup_put_file_iff [OF t] a by blast
      then show ?thesis using Suc by simp
    qed
    show ?thesis using 1 2 3 4 by blast
  qed
qed

lemma processHTML_loop:
  assumes "getFiles env (srcDir cfg) (js ''.html'') s = (Ok htmlFiles, s0)"
    and "processHTML cfg env s = (r, s')"
  shows "for_each htmlFiles (html_file cfg env) s0 = (r, s')"
  using assms by (simp add: processHTML_def bind_def)

lemma new_events_trans:
  assumes "trace s0 = trace s @ a" "trace s' = trace s0 @ b"
  shows "new_events s s' = new_events s s0 @ b"
  using assms by (simp add: new_events_def)

text \<open>
  C7. The markup task writes each markup file it has found into the output root itself,
  under the last component of its path, whatever directory of the source tree it was
  found in: in a run that returns, the reads and writes are those of the found files in
  the order of the scan, each file read and then written, minified in a production
  build. When two of the files have the same name both are written to the same path,
  and after the run that path holds the output of the one the scan listed last; nothing
  is printed and nothing fails on that account. When no source file lies below the
  output root, what was written is the output of the contents the files had before the
  run.
\<close>

theorem markup_written_flat:
  assumes "getFiles env (srcDir cfg) (js ''.html'') s = (Ok htmlFiles, s0)"
    and "processHTML cfg env s = (Ok u, s')"
  shows "\<exists>sources. length sources = length htmlFiles
     \<and> new_events s s'
         = new_events s s0 @ html_events cfg htmlFiles (map utf8_decode sources)
     \<and> (\<forall>j<length htmlFiles.
          (\<forall>k<length htmlFiles. j < k \<longrightarrow>
             basename (htmlFiles ! k) \<noteq> basename (htmlFiles ! j)) \<longrightarrow>
          lookup (files s') (distDir cfg @ [basename (htmlFiles ! j)])
            = Some (File (utf8_encode (html_output cfg (utf8_decode (sources ! j))))))
     \<and> ((\<forall>f\<in>set htmlFiles. \<not> prefix (distDir cfg) f) \<longrightarrow>
          (\<forall>j<length htmlFiles. lookup (files s) (htmlFiles ! j) = Some (File (sources ! j))))"
proof -
  have loop: "for_each htmlFiles (html_file cfg env) s0 = (Ok u, s')"
    using assms by (rule processHTML_loop)
  have f0: "files s0 = files s" using assms(1) by (rule getFiles_files)
  obtain a where a: "trace s0 = trace s @ a"
    using emitsD [OF emits_getFiles [of "srcDir cfg" "\<lambda>_. True"] assms(1)] by auto
  obtain bs where bs: "length bs = length htmlFiles"
      "trace s' = trace s0 @ html_events cfg htmlFiles (map utf8_decode bs)"
      "\<forall>j<length htmlFiles.
          (\<forall>k<length htmlFiles. j < k \<longrightarrow>
             html_target cfg (htmlFiles ! k) \<noteq> html_target cfg (htmlFiles ! j)) \<longrightarrow>
          lookup (files s') (html_target cfg (htmlFiles ! j))
            = Some (File (utf8_encode (html_output cfg (utf8_decode (bs ! j)))))"
      "(\<forall>f\<in>set htmlFiles. \<not> prefix (distDir cfg) f) \<longrightarrow>
          (\<forall>j<length htmlFiles. lookup (files s0) (htmlFiles ! j) = Some (File (bs ! j)))"
    using html_loop [OF loop] by blast
  have 2: "new_events s s' = new_events s s0 @ html_events cfg htmlFiles (map utf8_decode bs)"
    using a bs(2) by (rule new_events_trans)
  show ?thesis
    using bs(1) 2 bs(3,4) unfolding f0 html_target_def
    by (intro exI [of _ bs]) simp
qed

theorem markup_written_flat_witness:
  "fst (getFiles demo_env (srcDir demo_config) (js ''.html'') watched_state)
     = Ok [[js ''proj'', js ''src'', js ''index.html''],
           [js ''proj'', js ''src'', js ''pages'', js ''index.html'']]
   \<and> fst (processHTML demo_config demo_env watched_state) = Ok ()
   \<and> lookup (files watched_state) [js ''proj'', js ''src'', js ''pages'', js ''index.html'']
       = Some (File (utf8_encode (js ''<p>  two  </p>'')))
   \<and> lookup (files (snd (processHTML demo_config demo_env watched_state)))
         [js ''proj'', js ''dist'', js ''index.html'']
       = Some (File (utf8_encode (minifyHTML (utf8_decode (utf8_encode (js ''<p>  two  </p>''))))))
   \<and> utf8_encode (minifyHTML (utf8_decode (utf8_encode (js ''<p>  two  </p>''))))
       = utf8_encode (js ''<p> two </p>'')
   \<and> (\<exists>sources. length sources = 2
         \<and> new_events watched_state (snd (processHTML demo_config demo_env watched_state))
           = new_events watched_state
               (snd (getFiles demo_env (srcDir demo_config) (js ''.html'') watched_state))
             @ html_events demo_config
                 [[js ''proj'', js ''src'', js ''index.html''],
                  [js ''proj'', js ''src'', js ''pages'', js ''index.html'']]
                 (map utf8_decode sources))"
proof -
  let ?A = "[js ''proj'', js ''src'', js ''index.html'']"
  let ?B = "[js ''proj'', js ''src'', js ''pages'', js ''index.html'']"
  let ?two = "utf8_encode (js ''<p>  two  </p>'')"
  let ?s0 = "snd (getFiles demo_env (srcDir demo_config) (js ''.html'') watched_state)"
  let ?s' = "snd (processHTML demo_config demo_env watched_state)"
  have a: "fst (getFiles demo_env (srcDir demo_config) (js ''.html'') watched_state)
             = Ok [?A, ?B]"
    by code_simp
  have b: "fst (processHTML demo_config demo_env watched_state) = Ok ()" by code_simp
  have c: "lookup (files watched_state) ?B = Some (File ?two)" by code_simp
  have m: "utf8_encode (minifyHTML (utf8_decode ?two)) = utf8_encode (js ''<p> two </p>'')"
    by code_simp
  have a': "getFiles demo_env (srcDir demo_config) (js ''.html'') watched_state
              = (Ok [?A, ?B], ?s0)"
    using a by (metis prod.collapse)
  have b': "processHTML demo_config demo_env watched_state = (Ok (), ?s')"
    using b by (metis prod.collapse)
  obtain sources where len: "length sources = length [?A, ?B]"
    and ev: "new_events watched_state ?s'
               = new_events watched_state ?s0
                 @ html_events demo_config [?A, ?B] (map utf8_decode sources)"
    and fin: "\<forall>j<length [?A, ?B].
          (\<forall>k<length [?A, ?B]. j < k \<longrightarrow> basename ([?A, ?B] ! k) \<noteq> basename ([?A, ?B] ! j)) \<longrightarrow>
          lookup (files ?s') (distDir demo_config @ [basename ([?A, ?B] ! j)])
            = Some (File (utf8_encode (html_output demo_config (utf8_decode (sources ! j)))))"
    and ini: "(\<forall>f\<in>set [?A, ?B]. \<not> prefix (distDir demo_config) f) \<longrightarrow>
          (\<forall>j<length [?A, ?B]. lookup (files watched_state) ([?A, ?B] ! j)
             = Some (File (sources ! j)))"
    using markup_written_flat [OF a' b'] by blast
  have d: "distDir demo_config = [js ''proj'', js ''dist'']" "\<not> dev demo_config"
    by (simp_all add: demo_config_def default_config_def)
  have ne: "js ''dist'' \<noteq> js ''src''" by (simp add: js_def)
  have "\<forall>f\<in>set [?A, ?B]. \<not> prefix (distDir demo_config) f"
    unfolding d using ne by simp
  then have "\<forall>j<length [?A, ?B]. lookup (files watched_state) ([?A, ?B] ! j)
               = Some (File (sources ! j))"
    using ini by blast
  from this [rule_format, of 1]
  have "lookup (files watched_state) ([?A, ?B] ! 1) = Some (File (sources ! 1))" by simp
  then have c1: "sources ! 1 = ?two" using c by simp
  have "lookup (files ?s') (distDir demo_config @ [basename ([?A, ?B] ! 1)])
          = Some (File (utf8_encode (html_output demo_config (utf8_decode (sources ! 1)))))"
    using fin [rule_format, of 1] by simp
  then have e: "lookup (files ?s') [js ''proj'', js ''dist'', js ''index.html'']
                  = Some (File (utf8_encode (minifyHTML (utf8_decode ?two))))"
    unfolding c1 d by (simp add: basename_def html_output_def d)
  have f: "\<exists>sources. length sources = 2
         \<and> new_events watched_state ?s'
           = new_events watched_state ?s0
             @ html_events demo_config [?A, ?B] (map utf8_decode sources)"
    using len ev by (intro exI [of _ sources]) simp
  show ?thesis by (intro conjI a b c e m f)
qed

section \<open>Concurrent change handlers\<close>

lemma run_schedule_Nil [simp]: "run_schedule cfg env [] c = c"
  by (simp add: run_schedule_def)

lemma run_schedule_Cons [simp]:
  "run_schedule cfg env (a # acts) c = run_schedule cfg env acts (act cfg env c a)"
  by (simp add: run_schedule_def)

lemma run_schedule_append:
  "run_schedule cfg env (xs @ ys) c = run_schedule cfg env ys (run_schedule cfg env xs c)"
  by (simp add: run_schedule_def)

lemma resume_alone:
  "act cfg env ([h], s) (Resume 0) = ([fst (resume cfg env h s)], snd (resume cfg env h s))"
  by simp

lemma ended_stays: "run_schedule cfg env (replicate n (Resume 0)) ([Ended], s) = ([Ended], s)"
  by (induction n) simp_all

lemma on_change_settle:
  assumes "extname filePath = js ''.html''"
  shows "snd (on_change cfg env filePath s)
     = settle (processHTML cfg env (s\<lparr>trace := trace s @ [Out (FileChanged filePath)]\<rparr>))"
proof -
  let ?s0 = "s\<lparr>trace := trace s @ [Out (FileChanged filePath)]\<rparr>"
  obtain r s1 where p: "processHTML cfg env ?s0 = (r, s1)" by (cases "processHTML cfg env ?s0")
  show ?thesis
    unfolding on_change_html [OF assms] p
    using p by (cases r) (simp_all add: bind_def emit_def try_catch_def updated_def failed_def)
qed

lemma html_file_result:
  "html_file cfg env file s =
     (case readFile env file s of
        (Ok content, s1) \<Rightarrow>
          writeFile env (distDir cfg @ [basename file])
            (if \<not> dev cfg then minifyHTML content else content) s1
      | (Throw error, s1) \<Rightarrow> (Throw error, s1))"
  by (simp add: html_file_def bind_def Let_def)

lemma loop_alone:
  "run_schedule cfg env (replicate (2 * length (fl # rest)) (Resume 0)) ([Reading fl rest], s)
     = ([Ended], settle (for_each (fl # rest) (html_file cfg env) s))"
proof (induction rest arbitrary: fl s)
  case Nil
  obtain r s1 where rd: "readFile env fl s = (r, s1)" by (cases "readFile env fl s")
  show ?case
  proof (cases r)
    case (Throw e)
    then show ?thesis using rd by (simp add: html_file_result numeral_2_eq_2)
  next
    case (Ok content)
    let ?c = "if \<not> dev cfg then minifyHTML content else content"
    obtain r2 s2 where wr: "writeFile env (distDir cfg @ [basename fl]) ?c s1 = (r2, s2)"
      by (cases "writeFile env (distDir cfg @ [basename fl]) ?c s1")
    show ?thesis using rd Ok wr by (cases r2) (simp_all add: html_file_result numeral_2_eq_2)
  qed
next
  case (Cons nx rest)
  have n: "replicate (2 * length (fl # nx # rest)) (Resume 0)
             = Resume 0 # Resume 0 # replicate (2 * length (nx # rest)) (Resume 0)"
    by simp
  obtain r s1 where rd: "readFile env fl s = (r, s1)" by (cases "readFile env fl s")
  show ?case
  proof (cases r)
    case (Throw e)
    then show ?thesis
      unfolding n using rd ended_stays [of cfg env "2 * length (nx # rest)"]
      by (simp add: html_file_result)
  next
    case (Ok content)
    let ?c = "if \<not> dev cfg then minifyHTML content else content"
    obtain r2 s2 where wr: "writeFile env (distDir cfg @ [basename fl]) ?c s1 = (r2, s2)"
      by (cases "writeFile env (distDir cfg @ [basename fl]) ?c s1")
    show ?thesis
    proof (cases r2)
      case (Throw e)
      then show ?thesis
        unfolding n using rd Ok wr ended_stays [of cfg env "2 * length (nx # rest)"]
        by (simp add: html_file_result)
    next
      case ok2: (Ok u)
      have "run_schedule cfg env (replicate (2 * length (fl # nx # rest)) (Resume 0))
              ([Reading fl (nx # rest)], s)
            = run_schedule cfg env (replicate (2 * length (nx # rest)) (Resume 0))
                ([Reading nx rest], s2)"
        unfolding n using rd Ok wr ok2 by simp
      also have "\<dots> = ([Ended], settle (for_each (nx # rest) (html_file cfg env) s2))"
        by (rule Cons.IH)
      also have "for_each (nx # rest) (html_file cfg env) s2
                   = for_each (fl # nx # rest) (html_file cfg env) s"
        using rd Ok wr ok2 by (simp add: html_file_result)
      finally show ?thesis .
    qed
  qed
qed

lemma markup_alone:
  assumes "extname filePath = js ''.html''"
  shows "\<exists>n. run_schedule cfg env (Change filePath # replicate n (Resume 0)) ([], s)
           = ([Ended], snd (on_change cfg env filePath s))"
proof -
  let ?s0 = "s\<lparr>trace := trace s @ [Out (FileChanged filePath)]\<rparr>"
  have start: "act cfg env ([], s) (Change filePath) = ([Scanning], ?s0)"
    using assms by simp
  obtain r s1 where g: "getFiles env (srcDir cfg) (js ''.html'') ?s0 = (r, s1)"
    by (cases "getFiles env (srcDir cfg) (js ''.html'') ?s0")
  have "\<exists>n. run_schedule cfg env (replicate n (Resume 0)) ([Scanning], ?s0)
           = ([Ended], settle (processHTML cfg env ?s0))"
  proof (cases r)
    case (Throw e)
    then have "run_schedule cfg env (replicate 1 (Resume 0)) ([Scanning], ?s0)
           = ([Ended], settle (processHTML cfg env ?s0))"
      using g by (simp add: processHTML_def bind_def)
    then show ?thesis by blast
  next
    case (Ok fs)
    show ?thesis
    proof (cases fs)
      case Nil
      then have "run_schedule cfg env (replicate 1 (Resume 0)) ([Scanning], ?s0)
           = ([Ended], settle (processHTML cfg env ?s0))"
        using g Ok by (simp add: processHTML_def bind_def)
      then show ?thesis by blast
    next
      case (Cons fl rest)
      have "run_schedule cfg env (replicate (Suc (2 * length (fl # rest))) (Resume 0))
              ([Scanning], ?s0)
            = run_schedule cfg env (replicate (2 * length (fl # rest)) (Resume 0))
                ([Reading fl rest], s1)"
        using g Ok Cons by simp
      also have "\<dots> = ([Ended], settle (for_each (fl # rest) (html_file cfg env) s1))"
        by (rule loop_alone)
      also have "for_each (fl # rest) (html_file cfg env) s1 = processHTML cfg env ?s0"
        using g Ok Cons by (simp add: processHTML_def bind_def)
      finally show ?thesis by blast
    qed
  qed
  then show ?thesis using start on_change_settle [OF assms, of cfg env s] by simp
qed

lemma scan_finds:
  assumes "lookup (files s) (srcDir cfg) = Some (Dir es)"
    and "walk (srcDir cfg) es (js ''.html'') = fl # rest"
  shows "\<exists>s1. resume cfg env Scanning s = (Reading fl rest, s1) \<and> files s1 = files s"
  using assms by (simp add: getFiles_def)

lemma read_finds:
  assumes "lookup (files s) fl = Some (File b)"
  shows "\<exists>s1. resume cfg env (Reading fl rest) s
           = (Writing (distDir cfg @ [basename fl]) (html_output cfg (utf8_decode b)) rest, s1)
         \<and> files s1 = files s"
  using assms by (simp add: readFile_def html_output_def)

lemma handlers_race:
  assumes "extname p1 = js ''.html''" and "extname p2 = js ''.html''"
    and "lookup (files s) (srcDir cfg) = Some (Dir es)"
    and "walk (srcDir cfg) es (js ''.html'') = fl # rest"
    and "lookup (files s) fl = Some (File b)"
  shows "fst (run_schedule cfg env
                [Change p1, Change p2, Resume 0, Resume 1, Resume 0, Resume 1] ([], s))
     = [Writing (distDir cfg @ [basename fl]) (html_output cfg (utf8_decode b)) rest,
        Writing (distDir cfg @ [basename fl]) (html_output cfg (utf8_decode b)) rest]"
proof -
  let ?W = "Writing (distDir cfg @ [basename fl]) (html_output cfg (utf8_decode b)) rest"
  let ?s2 = "s\<lparr>trace := trace s @ [Out (FileChanged p1)]\<rparr>
              \<lparr>trace := trace (s\<lparr>trace := trace s @ [Out (FileChanged p1)]\<rparr>)
                 @ [Out (FileChanged p2)]\<rparr>"
  have c2: "run_schedule cfg env [Change p1, Change p2] ([], s) = ([Scanning, Scanning], ?s2)"
    using assms(1,2) by simp
  have f2: "files ?s2 = files s" by simp
  obtain s3 where s3: "resume cfg env Scanning ?s2 = (Reading fl rest, s3)" "files s3 = files s"
    using scan_finds [of ?s2 cfg es fl rest env] assms(3,4) by auto
  obtain s4 where s4: "resume cfg env Scanning s3 = (Reading fl rest, s4)" "files s4 = files s"
    using scan_finds [of s3 cfg es fl rest env] assms(3,4) s3(2) by auto
  obtain s5 where s5: "resume cfg env (Reading fl rest) s4 = (?W, s5)" "files s5 = files s"
    using read_finds [of s4 fl b cfg env rest] assms(5) s4(2) by auto
  obtain s6 where s6: "resume cfg env (Reading fl rest) s5 = (?W, s6)" "files s6 = files s"
    using read_finds [of s5 fl b cfg env rest] assms(5) s5(2) by auto
  have "run_schedule cfg env [Resume 0, Resume 1, Resume 0, Resume 1] ([Scanning, Scanning], ?s2)
          = ([?W, ?W], s6)"
    using s3(1) s4(1) s5(1) s6(1) by simp
  then have "run_schedule cfg env
               ([Change p1, Change p2] @ [Resume 0, Resume 1, Resume 0, Resume 1]) ([], s)
             = ([?W, ?W], s6)"
    unfolding run_schedule_append c2 .
  then show ?thesis by simp
qed

text \<open>
  C5, as stated, fails: the bundler has no exclusion mechanism. The watcher starts the
  handler of every change event when the event arrives, whatever else is under way.
  When two markup files of the demonstration project change one after the other and
  both handlers are started before either goes on, both scan, both read the first file,
  and both are then waiting for their write of the same output file.
\<close>

theorem watch_not_serialized_counterexample:
  "extname [js ''proj'', js ''src'', js ''index.html''] = js ''.html''
   \<and> extname [js ''proj'', js ''src'', js ''pages'', js ''index.html''] = js ''.html''
   \<and> fst (run_schedule demo_config demo_env
        [Change [js ''proj'', js ''src'', js ''index.html''],
         Change [js ''proj'', js ''src'', js ''pages'', js ''index.html''],
         Resume 0, Resume 1, Resume 0, Resume 1] ([], watched_state))
     = [Writing [js ''proj'', js ''dist'', js ''index.html''] (js ''<p> one </p>'')
          [[js ''proj'', js ''src'', js ''pages'', js ''index.html'']],
        Writing [js ''proj'', js ''dist'', js ''index.html''] (js ''<p> one </p>'')
          [[js ''proj'', js ''src'', js ''pages'', js ''index.html'']]]"
  by code_simp

text \<open>
  C5, amended. Watch-triggered task invocations are not serialized. Only the steps of
  one invocation are in order: a handler of a markup event that runs with no other
  handler under way does, step by step, what the handler does when it is run in one go.
  But for any two change events of markup files, in any project whose scan finds a
  markup file that can be read, the schedule in which both handlers are started and then
  take their steps in turn leads to two invocations that wait, at the same time, for
  their write of the same output file.
\<close>

theorem watch_not_serialized:
  assumes "extname p1 = js ''.html''" and "extname p2 = js ''.html''"
    and "lookup (files s) (srcDir cfg) = Some (Dir es)"
    and "walk (srcDir cfg) es (js ''.html'') = found # rest"
    and "lookup (files s) found = Some (File b)"
  shows "fst (run_schedule cfg env
                [Change p1, Change p2, Resume 0, Resume 1, Resume 0, Resume 1] ([], s))
     = [Writing (distDir cfg @ [basename found]) (html_output cfg (utf8_decode b)) rest,
        Writing (distDir cfg @ [basename found]) (html_output cfg (utf8_decode b)) rest]
   \<and> (\<exists>n. run_schedule cfg env (Change p1 # replicate n (Resume 0)) ([], s)
           = ([Ended], snd (on_change cfg env p1 s)))"
  using handlers_race [OF assms] markup_alone [OF assms(1)] by blast

theorem watch_not_serialized_witness:
  "extname [js ''proj'', js ''src'', js ''index.html''] = js ''.html''
   \<and> extname [js ''proj'', js ''src'', js ''pages'', js ''index.html''] = js ''.html''
   \<and> lookup (files watched_state) (srcDir demo_config) = Some (Dir demo_src)
   \<and> walk (srcDir demo_config) demo_src (js ''.html'')
       = [[js ''proj'', js ''src'', js ''index.html''],
          [js ''proj'', js ''src'', js ''pages'', js ''index.html'']]
   \<and> lookup (files watched_state) [js ''proj'', js ''src'', js ''index.html'']
       = Some (File (utf8_encode (js ''<p>  one  </p>'')))
   \<and> fst (run_schedule demo_config demo_env
        [Change [js ''proj'', js ''src'', js ''index.html''],
         Change [js ''proj'', js ''src'', js ''pages'', js ''index.html''],
         Resume 0, Resume 1, Resume 0, Resume 1] ([], watched_state))
     = [Writing (distDir demo_config @ [basename [js ''proj'', js ''src'', js ''index.html'']])
          (html_output demo_config (utf8_decode (utf8_encode (js ''<p>  one  </p>''))))
          [[js ''proj'', js ''src'', js ''pages'', js ''index.html'']],
        Writing (distDir demo_config @ [basename [js ''proj'', js ''src'', js ''index.html'']])
          (html_output demo_config (utf8_decode (utf8_encode (js ''<p>  one  </p>''))))
          [[js ''proj'', js ''src'', js ''pages'', js ''index.html'']]]
   \<and> (\<exists>n. run_schedule demo_config demo_env
          (Change [js ''proj'', js ''src'', js ''index.html''] # replicate n (Resume 0))
          ([], watched_state)
        = ([Ended], snd (on_change demo_config demo_env
                           [js ''proj'', js ''src'', js ''index.html''] watched_state)))"
proof -
  let ?A = "[js ''proj'', js ''src'', js ''index.html'']"
  let ?B = "[js ''proj'', js ''src'', js ''pages'', js ''index.html'']"
  have a: "extname ?A = js ''.html''" by code_simp
  have b: "extname ?B = js ''.html''" by code_simp
  have c: "lookup (files watched_state) (srcDir demo_config) = Some (Dir demo_src)"
    by code_simp
  have d: "walk (srcDir demo_config) demo_src (js ''.html'') = [?A, ?B]" by code_simp
  have e: "lookup (files watched_state) ?A = Some (File (utf8_encode (js ''<p>  one  </p>'')))"
    by code_simp
  note w = watch_not_serialized [where cfg = demo_config and env = demo_env, OF a b c d e]
  show ?thesis using a b c d e w by blast
qed

end
